theory Spec2Isabelle
  imports Main "HOL-Library.Sublist"
begin

section \<open>Text values\<close>

text \<open>
  The script works on a Python \<open>str\<close>: a sequence of Unicode code points. A code point is
  a natural number here, so that the whitespace test of \<open>str.split()\<close> can be the one
  Python uses (it knows more whitespace than ASCII has). \<open>str\<close> turns an ASCII literal
  into such a sequence.
\<close>

type_synonym codepoint = nat
type_synonym pystr = "codepoint list"

definition str :: "string \<Rightarrow> pystr" where
  "str s = map of_char s"

definition dquote :: codepoint where
  "dquote = 34"

definition space :: codepoint where
  "space = 32"

text \<open>
  \<open>str.isspace\<close> on one code point: the 29 code points that CPython's
  \<open>_PyUnicode_IsWhitespace\<close> accepts (U+0009..U+000D, U+001C..U+0020, U+0085, U+00A0,
  U+1680, U+2000..U+200A, U+2028, U+2029, U+202F, U+205F, U+3000).
\<close>

definition isspace :: "codepoint \<Rightarrow> bool" where
  "isspace c \<longleftrightarrow>
     (9 \<le> c \<and> c \<le> 13) \<or> (28 \<le> c \<and> c \<le> 32) \<or> c = 133 \<or> c = 160 \<or> c = 5760 \<or>
     (8192 \<le> c \<and> c \<le> 8202) \<or> c = 8232 \<or> c = 8233 \<or> c = 8239 \<or> c = 8287 \<or> c = 12288"

section \<open>String operations used by the callback\<close>

text \<open>
  \<open>classes.split()\<close> with no argument: runs of whitespace separate the words, and no empty
  word is produced. \<open>split_from w s\<close> scans \<open>s\<close> with the word read so far in \<open>w\<close>.
\<close>

fun split_from :: "pystr \<Rightarrow> pystr \<Rightarrow> pystr list" where
  "split_from w [] = (if w = [] then [] else [w])"
| "split_from w (c # cs) =
     (if isspace c then (if w = [] then split_from [] cs else w # split_from [] cs)
      else split_from (w @ [c]) cs)"

definition str_split :: "pystr \<Rightarrow> pystr list" where
  "str_split s = split_from [] s"

text \<open>\<open>sep.join(xs)\<close>.\<close>

fun str_join :: "pystr \<Rightarrow> pystr list \<Rightarrow> pystr" where
  "str_join sep [] = []"
| "str_join sep [x] = x"
| "str_join sep (x # y # ys) = x @ sep @ str_join sep (y # ys)"

text \<open>\<open>s.startswith(p)\<close>.\<close>

definition startswith :: "pystr \<Rightarrow> pystr \<Rightarrow> bool" where
  "startswith s p \<longleftrightarrow> prefix p s"

section \<open>The three substitutions of \<open>fix-tw.py\<close>\<close>

definition tw :: pystr where
  "tw = str ''tw-''"

definition tw_add :: pystr where
  "tw_add = str ''classList.tw-add(''"

definition add :: pystr where
  "add = str ''classList.add(''"

definition tw_remove :: pystr where
  "tw_remove = str ''classList.tw-remove(''"

definition remove :: pystr where
  "remove = str ''classList.remove(''"

text \<open>
  \<open>re.sub(p, r, content)\<close> for a pattern that is an escaped literal \<open>p\<close> (not empty, as at
  both call sites) and a replacement string \<open>r\<close> without backslashes: the text is scanned
  from the left; where \<open>p\<close> is found, \<open>r\<close> is emitted and the scan goes on behind the
  match, elsewhere one character is copied.
\<close>

fun re_sub_literal :: "pystr \<Rightarrow> pystr \<Rightarrow> pystr \<Rightarrow> pystr" where
  "re_sub_literal p r [] = []"
| "re_sub_literal p r (x # xs) =
     (if prefix p (x # xs) then r @ re_sub_literal p r (drop (length p - 1) xs)
      else x # re_sub_literal p r xs)"

text \<open>
  The generator expression of \<open>prefix_classes\<close>, for one class \<open>c\<close>:
  \<open>'tw-' + c if not c.startswith('tw-') else c\<close>.
\<close>

definition prefix_class :: "pystr \<Rightarrow> pystr" where
  "prefix_class c = (if \<not> startswith c tw then tw @ c else c)"

text \<open>
  The f-string \<open>f'className = "{prefixed}"'\<close> that \<open>prefix_classes\<close> returns.
\<close>

definition className_literal :: "pystr \<Rightarrow> pystr" where
  "className_literal prefixed = str ''className = '' @ [dquote] @ prefixed @ [dquote]"

text \<open>
  The callback \<open>prefix_classes(match)\<close>; its argument here is \<open>match.group(1)\<close>, the only
  part of the match object that the callback reads.
\<close>

definition prefix_classes :: "pystr \<Rightarrow> pystr" where
  "prefix_classes classes =
     (let prefixed = str_join [space] (map prefix_class (str_split classes))
      in className_literal prefixed)"

text \<open>
  The pattern \<open>className = "([^"]+)"\<close> tried at the start of \<open>s\<close>: the literal opening, then
  the longest run of characters other than the double quote (greedy, and a shorter run is
  never followed by a quote, so backtracking cannot help), which must not be empty, then a
  double quote. The result is group 1 and the text behind the match.
\<close>

definition className_open :: pystr where
  "className_open = str ''className = '' @ [dquote]"

definition match_className :: "pystr \<Rightarrow> (pystr \<times> pystr) option" where
  "match_className s =
     (if prefix className_open s then
        (let body = drop (length className_open) s;
             g = takeWhile (\<lambda>c. c \<noteq> dquote) body;
             r = dropWhile (\<lambda>c. c \<noteq> dquote) body
         in if g = [] \<or> r = [] then None else Some (g, tl r))
      else None)"

text \<open>\<open>re.sub(r'className = "([^"]+)"', prefix_classes, content)\<close>.\<close>

function re_sub_className :: "pystr \<Rightarrow> pystr" where
  "re_sub_className [] = []"
| "re_sub_className (x # xs) =
     (case match_className (x # xs) of
        Some (g, rest) \<Rightarrow> prefix_classes g @ re_sub_className rest
      | None \<Rightarrow> x # re_sub_className xs)"
  by pat_completeness auto
termination
proof (relation "measure length")
  show "wf (measure length)"
    by simp
next
  fix x xs p g rest
  assume m: "match_className (x # xs) = Some p" and p: "(g, rest) = p"
  define body where "body = drop (length className_open) (x # xs)"
  from m p have r: "dropWhile (\<lambda>c. c \<noteq> dquote) body \<noteq> []"
    and rest: "rest = tl (dropWhile (\<lambda>c. c \<noteq> dquote) body)"
    by (auto simp: match_className_def body_def Let_def split: if_splits)
  have "length (dropWhile (\<lambda>c. c \<noteq> dquote) body) \<le> length body"
    by (rule length_dropWhile_le)
  with r rest have "length rest < length body"
    by (cases "dropWhile (\<lambda>c. c \<noteq> dquote) body") auto
  then show "(rest, x # xs) \<in> measure length"
    by (simp add: body_def)
next
  fix x :: codepoint and xs :: pystr
  show "(xs, x # xs) \<in> measure length"
    by simp
qed

text \<open>The three assignments to \<open>content\<close>, in the order of the script.\<close>

definition pipeline :: "pystr \<Rightarrow> pystr" where
  "pipeline content0 =
     (let content1 = re_sub_literal tw_add add content0;
          content2 = re_sub_literal tw_remove remove content1;
          content3 = re_sub_className content2
      in content3)"

section \<open>The script with its file and its output\<close>

text \<open>
  The world of the script: the files by path, the lines printed so far, the code points
  that the encoding of standard output can encode, and the line separator of the
  platform (\<open>os.linesep\<close>). A file has its characters as they are stored (line ends
  included), and may or may not be opened for reading, be decoded, and be opened for
  writing. The encoding of the file is the same when it is read and when it is written
  in one run, so that equal characters are equal bytes.
\<close>

datatype py_error = FileNotFoundError | PermissionError | UnicodeDecodeError | UnicodeEncodeError

record file_entry =
  contents :: pystr
  readable :: bool
  decodable :: bool
  writable :: bool

record world =
  files :: "string \<rightharpoonup> file_entry"
  stdout :: "pystr list"
  stdout_encodes :: "codepoint \<Rightarrow> bool"
  linesep :: pystr

datatype outcome = Finished | Raised py_error

text \<open>
  \<open>open(path, 'r')\<close> has no \<open>newline=\<close> argument: reading is in universal newlines mode,
  in which \<open>\r\n\<close> (13, 10) and a lone \<open>\r\<close> are delivered as \<open>\n\<close>.
\<close>

fun universal_newlines :: "pystr \<Rightarrow> pystr" where
  "universal_newlines [] = []"
| "universal_newlines [c] = [if c = 13 then 10 else c]"
| "universal_newlines (c # d # cs) =
     (if c = 13 \<and> d = 10 then 10 # universal_newlines cs
      else if c = 13 then 10 # universal_newlines (d # cs)
      else c # universal_newlines (d # cs))"

text \<open>
  \<open>open(path, 'w')\<close> has no \<open>newline=\<close> argument either: every \<open>\n\<close> written is stored as
  the line separator of the platform.
\<close>

definition to_disk :: "pystr \<Rightarrow> pystr \<Rightarrow> pystr" where
  "to_disk sep s = concat (map (\<lambda>c. if c = 10 then sep else [c]) s)"

text \<open>
  \<open>with open(path, 'r') as f: content = f.read()\<close>. A missing file raises
  \<open>FileNotFoundError\<close> and a file that may not be read \<open>PermissionError\<close>, both in \<open>open\<close>;
  bytes that are no text in the encoding raise \<open>UnicodeDecodeError\<close> in \<open>read\<close>.
\<close>

definition read_file :: "world \<Rightarrow> string \<Rightarrow> py_error + pystr" where
  "read_file w path =
     (case files w path of
        None \<Rightarrow> Inl FileNotFoundError
      | Some f \<Rightarrow>
          if \<not> readable f then Inl PermissionError
          else if \<not> decodable f then Inl UnicodeDecodeError
          else Inr (universal_newlines (contents f)))"

text \<open>
  \<open>with open(path, 'w') as f: f.write(s)\<close>. Mode \<open>'w'\<close> creates a missing file. The text
  written is text that was read from the same file, with ASCII characters added, so that
  it can be encoded.
\<close>

definition write_file :: "world \<Rightarrow> string \<Rightarrow> pystr \<Rightarrow> py_error + world" where
  "write_file w path s =
     (case files w path of
        None \<Rightarrow>
          Inr (w\<lparr>files := (files w)(path \<mapsto>
            \<lparr>contents = to_disk (linesep w) s, readable = True, decodable = True,
              writable = True\<rparr>)\<rparr>)
      | Some f \<Rightarrow>
          if writable f
          then Inr (w\<lparr>files := (files w)(path \<mapsto> f\<lparr>contents := to_disk (linesep w) s\<rparr>)\<rparr>)
          else Inl PermissionError)"

text \<open>
  \<open>print(line)\<close>: standard output encodes strictly, so a line with a character that its
  encoding does not have raises \<open>UnicodeEncodeError\<close>, and nothing of the line is printed.
\<close>

definition print :: "world \<Rightarrow> pystr \<Rightarrow> py_error + world" where
  "print w line =
     (if list_all (stdout_encodes w) line then Inr (w\<lparr>stdout := stdout w @ [line]\<rparr>)
      else Inl UnicodeEncodeError)"

definition target :: string where
  "target = ''src/index.ts''"

text \<open>The message starts with U+2713 (10003), the check mark.\<close>

definition message :: pystr where
  "message = 10003 # str '' Fixed Tailwind prefixes''"

text \<open>
  The whole script: an exception of the first \<open>with\<close> block ends it before anything else
  runs, an exception of the second \<open>open\<close> ends it before the \<open>print\<close>, and an
  exception of the \<open>print\<close> ends it when the file has been written.
\<close>

definition main :: "world \<Rightarrow> outcome \<times> world" where
  "main w =
     (case read_file w target of
        Inl e \<Rightarrow> (Raised e, w)
      | Inr content0 \<Rightarrow>
          (case write_file w target (pipeline content0) of
             Inl e \<Rightarrow> (Raised e, w)
           | Inr w' \<Rightarrow>
               (case print w' message of
                  Inl e \<Rightarrow> (Raised e, w')
                | Inr w'' \<Rightarrow> (Finished, w''))))"

section \<open>Occurrences of a substring\<close>

text \<open>The number of positions of \<open>s\<close> at which the (non-empty) string \<open>w\<close> starts.\<close>

fun occurrences :: "pystr \<Rightarrow> pystr \<Rightarrow> nat" where
  "occurrences w [] = 0"
| "occurrences w (x # xs) = (if prefix w (x # xs) then 1 else 0) + occurrences w xs"

text \<open>The number of maximal runs of whitespace in a string (a run is counted where it ends).\<close>

fun whitespace_runs :: "pystr \<Rightarrow> nat" where
  "whitespace_runs [] = 0"
| "whitespace_runs [c] = (if isspace c then 1 else 0)"
| "whitespace_runs (c # d # cs) =
     (if isspace c \<and> \<not> isspace d then 1 else 0) + whitespace_runs (d # cs)"

section \<open>The three passes in the words of the specification\<close>

text \<open>
  The definitions of this section follow the specification. Of the model of the script
  they use the code points, \<open>str\<close> and \<open>isspace\<close> only, none of its passes and string
  operations, so that each can be compared with its counterpart.
\<close>

text \<open>
  The leftmost position of \<open>s\<close> from which the rest of \<open>s\<close> satisfies \<open>P\<close>, if there is one.
\<close>

definition first_index :: "(pystr \<Rightarrow> bool) \<Rightarrow> pystr \<Rightarrow> nat option" where
  "first_index P s = List.find (\<lambda>i. P (drop i s)) [0..<length s]"

text \<open>
  ``Every occurrence of the literal substring pattern \<open>p\<close> is rewritten to \<open>r\<close>'': the
  text up to the leftmost occurrence stays, the occurrence becomes \<open>r\<close>, and the same is
  done with the text behind the occurrence.
\<close>

function spec_replace_all :: "pystr \<Rightarrow> pystr \<Rightarrow> pystr \<Rightarrow> pystr" where
  "spec_replace_all p r s =
     (if p = [] then s
      else case first_index (prefix p) s of
             None \<Rightarrow> s
           | Some i \<Rightarrow> take i s @ r @ spec_replace_all p r (drop (i + length p) s))"
  by pat_completeness auto
termination
proof (relation "measure (\<lambda>(p, r, s). length s)")
  show "wf (measure (\<lambda>(p, r, s). length s))"
    by simp
next
  fix p r s :: pystr and i
  assume p: "p \<noteq> []" and i: "first_index (prefix p) s = Some i"
  from i have "i \<in> set [0..<length s]"
    unfolding first_index_def by (auto simp: find_Some_iff)
  then have "i < length s"
    by simp
  with p show "((p, r, drop (i + length p) s), (p, r, s)) \<in> measure (\<lambda>(p, r, s). length s)"
    by (cases p) simp_all
qed

text \<open>
  ``The captured string is split on whitespace into a sequence of class tokens'': the
  tokens are the maximal runs of characters that are not whitespace.
\<close>

function spec_tokens :: "pystr \<Rightarrow> pystr list" where
  "spec_tokens s =
     (if dropWhile isspace s = [] then []
      else takeWhile (\<lambda>c. \<not> isspace c) (dropWhile isspace s) #
           spec_tokens (dropWhile (\<lambda>c. \<not> isspace c) (dropWhile isspace s)))"
  by pat_completeness auto
termination
proof (relation "measure length")
  show "wf (measure length)"
    by simp
next
  fix s :: pystr
  assume ne: "dropWhile isspace s \<noteq> []"
  then obtain c cs where s': "dropWhile isspace s = c # cs"
    by (cases "dropWhile isspace s") auto
  then have "\<not> isspace c"
    using hd_dropWhile [of isspace s] by simp
  with s' have "dropWhile (\<lambda>c. \<not> isspace c) (dropWhile isspace s) = dropWhile (\<lambda>c. \<not> isspace c) cs"
    by simp
  moreover have "length (dropWhile (\<lambda>c. \<not> isspace c) cs) \<le> length cs"
    by (rule length_dropWhile_le)
  moreover have "length (dropWhile isspace s) \<le> length s"
    by (rule length_dropWhile_le)
  ultimately show "(dropWhile (\<lambda>c. \<not> isspace c) (dropWhile isspace s), s) \<in> measure length"
    using s' by simp
qed

text \<open>
  ``Each token is rewritten by prepending the literal prefix \<open>tw-\<close> unless the token already
  begins with \<open>tw-\<close>, in which case it is left unchanged.''
\<close>

definition spec_prefix_token :: "pystr \<Rightarrow> pystr" where
  "spec_prefix_token c = (if prefix (str ''tw-'') c then c else str ''tw-'' @ c)"

text \<open>``The rewritten tokens are rejoined with single spaces'' (32 is the space).\<close>

fun spec_join :: "pystr list \<Rightarrow> pystr" where
  "spec_join [] = []"
| "spec_join (t # ts) = t @ concat (map (\<lambda>x. 32 # x) ts)"

text \<open>
  ``The pattern \<open>className = "<classes>"\<close>, where \<open><classes>\<close> is any run of characters
  excluding a double-quote'' (34), and at least one character: a text starts with such a
  literal when it starts with \<open>className = "\<close> and the first double quote behind that is
  not the next character; the class string is what stands before that quote.
\<close>

definition spec_opening :: pystr where
  "spec_opening = str ''className = '' @ [34]"

definition spec_literal :: "pystr \<Rightarrow> (pystr \<times> pystr) option" where
  "spec_literal s =
     (if take (length spec_opening) s = spec_opening then
        (case first_index (\<lambda>t. hd t = 34) (drop (length spec_opening) s) of
           None \<Rightarrow> None
         | Some n \<Rightarrow>
             if n = 0 then None
             else Some (take n (drop (length spec_opening) s),
                        drop (Suc n) (drop (length spec_opening) s)))
      else None)"


text \<open>
  ``Every occurrence of the pattern is located. For each match, the rewritten tokens are
  substituted back in place of the original literal'': the text up to the leftmost
  literal stays, the literal gets the rewritten tokens as its class string, and the same
  is done with the text behind the literal.
\<close>

function spec_prefix_class_names :: "pystr \<Rightarrow> pystr" where
  "spec_prefix_class_names s =
     (case first_index (\<lambda>t. spec_literal t \<noteq> None) s of
        None \<Rightarrow> s
      | Some i \<Rightarrow>
          (case spec_literal (drop i s) of
             None \<Rightarrow> s
           | Some (classes, rest) \<Rightarrow>
               take i s @ spec_opening @
               spec_join (map spec_prefix_token (spec_tokens classes)) @ [34] @
               spec_prefix_class_names rest))"
  by pat_completeness auto
termination
proof (relation "measure length")
  show "wf (measure length)"
    by simp
next
  fix s :: pystr and i m classes rest
  assume m: "spec_literal (drop i s) = Some m" and cr: "(classes, rest) = m"
  define body where "body = drop (length spec_opening) (drop i s)"
  from m cr obtain n where n: "first_index (\<lambda>t. hd t = 34) body = Some n"
    and rest: "rest = drop (Suc n) body"
    by (auto simp: spec_literal_def body_def split: if_splits option.splits)
  from n have "n \<in> set [0..<length body]"
    unfolding first_index_def by (auto simp: find_Some_iff)
  then have "n < length body"
    by simp
  with rest have "length rest < length body"
    by simp
  then show "(rest, s) \<in> measure length"
    by (simp add: body_def)
qed

declare spec_replace_all.simps [simp del]
declare spec_tokens.simps [simp del]
declare spec_prefix_class_names.simps [simp del]

section \<open>Literals that the class-name pattern does not match\<close>

text \<open>The literal \<open>className = ""\<close>, with nothing between the quotes.\<close>

definition empty_literal :: pystr where
  "empty_literal = className_literal []"

text \<open>
  An assignment to \<open>className\<close> with the whitespace \<open>sp1\<close> before and \<open>sp2\<close> behind the
  equals sign (61) and the class string \<open>x\<close>.
\<close>

definition assignment :: "pystr \<Rightarrow> pystr \<Rightarrow> pystr \<Rightarrow> pystr" where
  "assignment sp1 sp2 x = str ''className'' @ sp1 @ [61] @ sp2 @ [dquote] @ x @ [dquote]"

text \<open>
  A text ends inside a class string when its last double quote is the one of an opening
  \<open>className = "\<close>: a match of the pattern that starts there reaches into what follows.
\<close>

definition unclosed :: "pystr \<Rightarrow> bool" where
  "unclosed u \<longleftrightarrow> suffix className_open (rev (dropWhile (\<lambda>c. c \<noteq> dquote) (rev u)))"

section \<open>The shape of the four method-call strings\<close>

text \<open>
  What the proofs use of \<open>classList.tw-add(\<close>, \<open>classList.add(\<close>, \<open>classList.tw-remove(\<close>
  and \<open>classList.remove(\<close>: each starts with \<open>c\<close> (99) and has no other \<open>c\<close>, ends with
  \<open>(\<close> (40) and has no other one, and has neither a double quote nor whitespace.
\<close>

definition call_pattern :: "pystr \<Rightarrow> bool" where
  "call_pattern w \<longleftrightarrow>
     w \<noteq> [] \<and> hd w = 99 \<and> 99 \<notin> set (tl w) \<and> last w = 40 \<and> 40 \<notin> set (butlast w) \<and>
     dquote \<notin> set w \<and> list_all (\<lambda>c. \<not> isspace c) w"

section \<open>Counting occurrences across a concatenation\<close>

text \<open>
  An occurrence of \<open>w\<close> cannot reach over a character that \<open>w\<close> has only as its first one,
  nor over a character that \<open>w\<close> has only as its last one, nor over one that \<open>w\<close> does
  not have: the count of a concatenation is then the sum of the counts of its parts.
\<close>

lemma prefix_append_fresh:
  assumes "u \<noteq> []" and "x \<notin> set (tl w)"
  shows "prefix w (u @ x # v) \<longleftrightarrow> prefix w u"
proof
  assume "prefix w (u @ x # v)"
  then have "prefix w u \<or> (\<exists>us. w = u @ us \<and> prefix us (x # v))"
    by (simp add: prefix_append)
  then show "prefix w u"
  proof
    assume "prefix w u"
    then show ?thesis .
  next
    assume "\<exists>us. w = u @ us \<and> prefix us (x # v)"
    then obtain us where us: "w = u @ us" "prefix us (x # v)"
      by blast
    show ?thesis
    proof (cases us)
      case Nil
      with us show ?thesis by simp
    next
      case (Cons b us')
      with us have "b = x" by simp
      with Cons us assms(1) have "x \<in> set (tl w)"
        by (cases u) simp_all
      with assms(2) show ?thesis by simp
    qed
  qed
next
  assume "prefix w u"
  then show "prefix w (u @ x # v)"
    by (rule prefix_prefix)
qed

lemma occurrences_append_fresh:
  assumes "x \<notin> set (tl w)"
  shows "occurrences w (u @ x # v) = occurrences w u + occurrences w (x # v)"
proof (induction u)
  case Nil
  show ?case by simp
next
  case (Cons a u)
  have "prefix w ((a # u) @ x # v) \<longleftrightarrow> prefix w (a # u)"
    using assms by (intro prefix_append_fresh) simp_all
  with Cons show ?case
    by simp
qed

lemma prefix_past_last:
  assumes "y \<notin> set (butlast w)"
  shows "prefix w (u @ y # v) \<longleftrightarrow> prefix w (u @ [y])"
proof
  assume "prefix w (u @ y # v)"
  then have "prefix w ((u @ [y]) @ v)"
    by simp
  then have "prefix w (u @ [y]) \<or> (\<exists>us. w = (u @ [y]) @ us \<and> prefix us v)"
    by (simp only: prefix_append)
  then show "prefix w (u @ [y])"
  proof
    assume "prefix w (u @ [y])"
    then show ?thesis .
  next
    assume "\<exists>us. w = (u @ [y]) @ us \<and> prefix us v"
    then obtain us where us: "w = (u @ [y]) @ us"
      by blast
    show ?thesis
    proof (cases "us = []")
      case True
      with us show ?thesis by simp
    next
      case False
      with us have "y \<in> set (butlast w)"
        by (simp add: butlast_append)
      with assms show ?thesis by simp
    qed
  qed
next
  assume "prefix w (u @ [y])"
  then have "prefix w ((u @ [y]) @ v)"
    by (rule prefix_prefix)
  then show "prefix w (u @ y # v)"
    by simp
qed

lemma occurrences_append_last:
  assumes "y \<notin> set (butlast w)"
  shows "occurrences w (u @ y # v) = occurrences w (u @ [y]) + occurrences w v"
proof (induction u)
  case Nil
  from assms have "prefix w ([] @ y # v) \<longleftrightarrow> prefix w ([] @ [y])"
    by (rule prefix_past_last)
  then show ?case
    by simp
next
  case (Cons a u)
  from assms have "prefix w ((a # u) @ y # v) \<longleftrightarrow> prefix w ((a # u) @ [y])"
    by (rule prefix_past_last)
  with Cons show ?case
    by simp
qed

lemma occurrences_absent:
  assumes "e \<in> set w" and "e \<notin> set s"
  shows "occurrences w s = 0"
  using assms(2)
proof (induction s)
  case Nil
  show ?case by simp
next
  case (Cons a s)
  have "\<not> prefix w (a # s)"
  proof
    assume "prefix w (a # s)"
    then have "set w \<subseteq> set (a # s)"
      by (rule set_mono_prefix)
    with assms(1) Cons.prems show False
      by auto
  qed
  with Cons show ?case
    by simp
qed

lemma occurrences_unit_end:
  assumes "y \<notin> set w" and "w \<noteq> []"
  shows "occurrences w (u @ [y]) = occurrences w u"
proof (induction u)
  case Nil
  from assms show ?case
    by (cases w) auto
next
  case (Cons a u)
  have "prefix w (a # u @ [y]) \<longleftrightarrow> prefix w (a # u)"
  proof
    assume p: "prefix w (a # u @ [y])"
    show "prefix w (a # u)"
    proof (rule ccontr)
      assume "\<not> prefix w (a # u)"
      with p have "w = a # u @ [y]"
        by (metis append_Cons prefix_snoc)
      with assms show False by simp
    qed
  next
    assume "prefix w (a # u)"
    then have "prefix w ((a # u) @ [y])"
      by (rule prefix_prefix)
    then show "prefix w (a # u @ [y])"
      by simp
  qed
  with Cons show ?case
    by simp
qed

lemma occurrences_append_sep:
  assumes "y \<notin> set w" and "w \<noteq> []"
  shows "occurrences w (u @ y # v) = occurrences w u + occurrences w v"
proof -
  from assms(1) have "y \<notin> set (butlast w)"
    by (auto dest: in_set_butlastD)
  then have "occurrences w (u @ y # v) = occurrences w (u @ [y]) + occurrences w v"
    by (rule occurrences_append_last)
  with assms show ?thesis
    by (simp add: occurrences_unit_end)
qed

lemma occurrences_skip:
  assumes "w \<noteq> []" and "hd w \<notin> set u"
  shows "occurrences w (u @ v) = occurrences w v"
  using assms(2)
proof (induction u)
  case Nil
  show ?case by simp
next
  case (Cons a u)
  with assms(1) have "\<not> prefix w (a # u @ v)"
    by (cases w) auto
  with Cons show ?case
    by simp
qed

section \<open>The four method-call strings have the shape\<close>

lemma call_pattern_tw_add: "call_pattern tw_add"
  by (simp add: call_pattern_def tw_add_def str_def dquote_def isspace_def)

lemma call_pattern_add: "call_pattern add"
  by (simp add: call_pattern_def add_def str_def dquote_def isspace_def)

lemma call_pattern_tw_remove: "call_pattern tw_remove"
  by (simp add: call_pattern_def tw_remove_def str_def dquote_def isspace_def)

lemma call_pattern_remove: "call_pattern remove"
  by (simp add: call_pattern_def remove_def str_def dquote_def isspace_def)

lemma isspace_space: "isspace space"
  by (simp add: isspace_def space_def)

lemma call_pattern_no_space: "call_pattern w \<Longrightarrow> space \<notin> set w"
  using isspace_space by (auto simp: call_pattern_def list_all_iff)

section \<open>Words of a class string\<close>

text \<open>
  The words that \<open>str_split\<close> returns are not empty and have no whitespace; joining such
  words with a space and splitting again returns them; and a string without whitespace
  occurs in a text as often as in its words together.
\<close>

lemma split_from_word:
  "list_all (\<lambda>c. \<not> isspace c) t \<Longrightarrow> split_from w (t @ cs) = split_from (w @ t) cs"
  by (induction t arbitrary: w) simp_all

lemma split_from_tokens:
  "list_all (\<lambda>c. \<not> isspace c) w \<Longrightarrow>
     list_all (\<lambda>t. t \<noteq> [] \<and> list_all (\<lambda>c. \<not> isspace c) t) (split_from w s)"
  by (induction s arbitrary: w) simp_all

lemma str_split_tokens:
  "list_all (\<lambda>t. t \<noteq> [] \<and> list_all (\<lambda>c. \<not> isspace c) t) (str_split s)"
  using split_from_tokens [of "[]" s] by (simp add: str_split_def)

lemma split_from_chars:
  "t \<in> set (split_from w s) \<Longrightarrow> set t \<subseteq> set w \<union> set s"
  by (induction s arbitrary: w) (fastforce split: if_splits)+

lemma str_split_chars: "t \<in> set (str_split s) \<Longrightarrow> set t \<subseteq> set s"
  using split_from_chars [of t "[]" s] by (simp add: str_split_def)

lemma str_split_join:
  "list_all (\<lambda>t. t \<noteq> [] \<and> list_all (\<lambda>c. \<not> isspace c) t) ts \<Longrightarrow>
     str_split (str_join [space] ts) = ts"
proof (induction "[space]" ts rule: str_join.induct)
  case 1
  show ?case by (simp add: str_split_def)
next
  case (2 x)
  then have "split_from [] (x @ []) = split_from ([] @ x) []"
    by (intro split_from_word) simp
  with 2 show ?case
    by (simp add: str_split_def)
next
  case (3 x y ys)
  then have "split_from [] (x @ space # str_join [space] (y # ys)) =
      split_from ([] @ x) (space # str_join [space] (y # ys))"
    by (intro split_from_word) simp
  with 3 show ?case
    by (simp add: str_split_def isspace_space)
qed

lemma occurrences_split_from:
  assumes "w \<noteq> []" and "list_all (\<lambda>c. \<not> isspace c) w"
  shows "occurrences w (a @ s) = sum_list (map (occurrences w) (split_from a s))"
proof (induction s arbitrary: a)
  case Nil
  show ?case by simp
next
  case (Cons c s)
  show ?case
  proof (cases "isspace c")
    case True
    with assms have "c \<notin> set w"
      by (auto simp: list_all_iff)
    with assms have "occurrences w (a @ c # s) = occurrences w a + occurrences w s"
      by (intro occurrences_append_sep)
    with True Cons [of "[]"] show ?thesis
      by simp
  next
    case False
    with Cons [of "a @ [c]"] show ?thesis
      by simp
  qed
qed

lemma occurrences_str_split:
  "w \<noteq> [] \<Longrightarrow> list_all (\<lambda>c. \<not> isspace c) w \<Longrightarrow>
     occurrences w s = sum_list (map (occurrences w) (str_split s))"
  using occurrences_split_from [of w "[]" s] by (simp add: str_split_def)

lemma occurrences_str_join:
  assumes "w \<noteq> []" and "space \<notin> set w"
  shows "occurrences w (str_join [space] ts) = sum_list (map (occurrences w) ts)"
proof (induction "[space]" ts rule: str_join.induct)
  case (3 x y ys)
  from assms have "occurrences w (x @ space # str_join [space] (y # ys)) =
      occurrences w x + occurrences w (str_join [space] (y # ys))"
    by (intro occurrences_append_sep)
  with 3 show ?case
    by simp
qed simp_all

lemma prefix_class_idem: "prefix_class (prefix_class c) = prefix_class c"
  by (simp add: prefix_class_def startswith_def)

lemma prefix_class_token:
  "t \<noteq> [] \<and> list_all (\<lambda>c. \<not> isspace c) t \<Longrightarrow>
     prefix_class t \<noteq> [] \<and> list_all (\<lambda>c. \<not> isspace c) (prefix_class t)"
  by (simp add: prefix_class_def tw_def str_def isspace_def)

lemma prefixed_tokens:
  "list_all (\<lambda>t. t \<noteq> [] \<and> list_all (\<lambda>c. \<not> isspace c) t) (map prefix_class (str_split s))"
proof -
  have "list_all (\<lambda>t. t \<noteq> [] \<and> list_all (\<lambda>c. \<not> isspace c) t) (map prefix_class ts)"
    if "list_all (\<lambda>t. t \<noteq> [] \<and> list_all (\<lambda>c. \<not> isspace c) t) ts" for ts
    using that by (induction ts) (simp_all add: prefix_class_token)
  then show ?thesis
    using str_split_tokens [of s] by blast
qed

lemma prefix_class_chars: "set (prefix_class t) \<subseteq> set tw \<union> set t"
  by (auto simp: prefix_class_def)

lemma occurrences_prefix_class:
  assumes "call_pattern w"
  shows "occurrences w (prefix_class t) = occurrences w t"
proof -
  from assms have "w \<noteq> []" and "hd w \<notin> set tw"
    by (simp_all add: call_pattern_def tw_def str_def)
  then have "occurrences w (tw @ t) = occurrences w t"
    by (rule occurrences_skip)
  then show ?thesis
    by (simp add: prefix_class_def)
qed

section \<open>The literal substitutions and the method-call strings\<close>

text \<open>
  How often a method-call string \<open>w\<close> occurs after \<open>p\<close> has been replaced by \<open>r\<close>: every
  replacement takes away the occurrences of \<open>w\<close> in \<open>p\<close> and brings those in \<open>r\<close>, and
  changes nothing else, since no occurrence of \<open>w\<close> reaches over an end of a match.
\<close>

lemma call_pattern_snoc: "call_pattern p \<Longrightarrow> p = butlast p @ [40]"
  by (metis append_butlast_last_id call_pattern_def)

lemma call_pattern_Cons: "call_pattern p \<Longrightarrow> p = 99 # tl p"
  by (metis call_pattern_def list.collapse)

lemma call_pattern_mem: "call_pattern p \<Longrightarrow> 99 \<in> set p \<and> 40 \<in> set p"
  by (metis call_pattern_def hd_in_set last_in_set)

lemma occurrences_call_append:
  assumes "call_pattern w" and "call_pattern p"
  shows "occurrences w (p @ v) = occurrences w p + occurrences w v"
proof -
  from assms(1) have "40 \<notin> set (butlast w)"
    by (simp add: call_pattern_def)
  then have "occurrences w (butlast p @ 40 # v) = occurrences w (butlast p @ [40]) + occurrences w v"
    by (rule occurrences_append_last)
  moreover from assms(2) have "p = butlast p @ [40]"
    by (rule call_pattern_snoc)
  ultimately show ?thesis
    by (metis append.assoc append_Cons append_Nil)
qed

lemma occurrences_call_tl:
  assumes "call_pattern w"
  shows "occurrences w (tl w) = 0"
proof -
  from assms have "99 \<in> set w" and "99 \<notin> set (tl w)"
    by (simp_all add: call_pattern_mem) (simp add: call_pattern_def)
  then show ?thesis
    by (rule occurrences_absent)
qed

lemma occurrences_call_call:
  assumes "call_pattern w" and "call_pattern p"
  shows "occurrences w p = (if w = p then 1 else 0)"
proof -
  from assms(2) obtain pm where p: "p = 99 # pm" and pm: "99 \<notin> set pm"
    by (cases p) (auto simp: call_pattern_def)
  from assms(1) have "99 \<in> set w"
    by (simp add: call_pattern_mem)
  then have tl0: "occurrences w pm = 0"
    using pm by (rule occurrences_absent)
  have "prefix w p \<longleftrightarrow> w = p"
  proof
    assume "prefix w p"
    then obtain us where us: "p = w @ us"
      by (auto simp: prefix_def)
    show "w = p"
    proof (cases "us = []")
      case True
      with us show ?thesis by simp
    next
      case False
      from assms(1) have "40 \<in> set w"
        by (simp add: call_pattern_mem)
      with us False have "40 \<in> set (butlast p)"
        by (simp add: butlast_append)
      with assms(2) show ?thesis
        by (simp add: call_pattern_def)
    qed
  qed simp
  then show ?thesis
    using tl0 by (simp add: p)
qed

lemma re_sub_literal_lookahead:
  assumes "p \<noteq> []" and "hd p = c" and "r \<noteq> []" and "hd r = c"
  shows "c \<notin> set m \<Longrightarrow> prefix m (re_sub_literal p r xs) \<longleftrightarrow> prefix m xs"
proof (induction xs arbitrary: m)
  case Nil
  show ?case by simp
next
  case (Cons x xs)
  show ?case
  proof (cases m)
    case Nil
    then show ?thesis by simp
  next
    case m: (Cons a m')
    with Cons.prems have a: "a \<noteq> c" and m': "c \<notin> set m'"
      by auto
    show ?thesis
    proof (cases "prefix p (x # xs)")
      case True
      with assms have "x = c"
        by (cases p) auto
      moreover from assms have "hd (r @ re_sub_literal p r (drop (length p - 1) xs)) = c"
        by simp
      then have "\<not> prefix m (r @ re_sub_literal p r (drop (length p - 1) xs))"
        using m a assms(3) by (cases r) auto
      ultimately show ?thesis
        using True m a by simp
    next
      case False
      with m Cons.IH [OF m'] show ?thesis
        by simp
    qed
  qed
qed

lemma re_sub_literal_absent: "occurrences p s = 0 \<Longrightarrow> re_sub_literal p r s = s"
  by (induction s) (auto split: if_splits)

lemma prefix_as_append: "prefix p (x # xs) \<Longrightarrow> p \<noteq> [] \<Longrightarrow> x # xs = p @ drop (length p - 1) xs"
  by (cases p) (auto simp: prefix_def)

lemma prefix_call_lookahead:
  assumes "call_pattern w" and "call_pattern p" and "call_pattern r"
  shows "prefix w (x # re_sub_literal p r xs) \<longleftrightarrow> prefix w (x # xs)"
proof -
  from assms(1) have w: "w = 99 # tl w" and m: "99 \<notin> set (tl w)"
    by (rule call_pattern_Cons) (use assms(1) in \<open>simp add: call_pattern_def\<close>)
  from assms(2,3) have "p \<noteq> []" "hd p = 99" "r \<noteq> []" "hd r = 99"
    by (simp_all add: call_pattern_def)
  then have "prefix (tl w) (re_sub_literal p r xs) \<longleftrightarrow> prefix (tl w) xs"
    using m by (rule re_sub_literal_lookahead)
  then have "prefix (99 # tl w) (x # re_sub_literal p r xs) \<longleftrightarrow> prefix (99 # tl w) (x # xs)"
    by simp
  with w show ?thesis
    by simp
qed

lemma occurrences_re_sub_literal:
  assumes w: "call_pattern w" and p: "call_pattern p" and r: "call_pattern r"
  shows "occurrences w (re_sub_literal p r s) + occurrences w p * occurrences p s =
         occurrences w s + occurrences w r * occurrences p s"
  using p r
proof (induction p r s rule: re_sub_literal.induct)
  case (1 p r)
  show ?case by simp
next
  case (2 p r x xs)
  note p = \<open>call_pattern p\<close> and r = \<open>call_pattern r\<close>
  show ?case
  proof (cases "prefix p (x # xs)")
    case True
    define rest where "rest = drop (length p - 1) xs"
    from p have "p \<noteq> []"
      by (simp add: call_pattern_def)
    with True have s: "x # xs = p @ rest"
      unfolding rest_def by (rule prefix_as_append)
    have ws: "occurrences w (x # xs) = occurrences w p + occurrences w rest"
      unfolding s using w p by (rule occurrences_call_append)
    have ps: "occurrences p (x # xs) = 1 + occurrences p rest"
      unfolding s using occurrences_call_append [OF p p] occurrences_call_call [OF p p]
      by simp
    have out: "occurrences w (re_sub_literal p r (x # xs)) =
        occurrences w r + occurrences w (re_sub_literal p r rest)"
      using True occurrences_call_append [OF w r] by (simp add: rest_def)
    from "2.IH"(1) [OF True p r]
    have "occurrences w (re_sub_literal p r rest) + occurrences w p * occurrences p rest =
        occurrences w rest + occurrences w r * occurrences p rest"
      by (simp add: rest_def)
    with ws ps out show ?thesis
      by (simp add: algebra_simps)
  next
    case False
    have "prefix w (x # re_sub_literal p r xs) \<longleftrightarrow> prefix w (x # xs)"
      using w p r by (rule prefix_call_lookahead)
    with False "2.IH"(2) [OF False p r] show ?thesis
      by simp
  qed
qed

lemma tw_add_gone: "occurrences tw_add (re_sub_literal tw_add add s) = 0"
  using occurrences_re_sub_literal [OF call_pattern_tw_add call_pattern_tw_add call_pattern_add, of s]
    occurrences_call_call [OF call_pattern_tw_add call_pattern_tw_add]
    occurrences_call_call [OF call_pattern_tw_add call_pattern_add]
  by (simp add: tw_add_def add_def str_def)

section \<open>The class-name substitution\<close>

text \<open>
  What a match of the pattern is, and that the class-name substitution leaves the number
  of occurrences of each method-call string as it is.
\<close>

lemma className_open_Cons: "className_open = 99 # str ''lassName = '' @ [dquote]"
  by (simp add: className_open_def str_def)

lemma className_open_tl_fresh: "99 \<notin> set (str ''lassName = '' @ [dquote])"
  by (simp add: str_def dquote_def)

lemma className_literal_open: "className_literal g @ rest = className_open @ g @ dquote # rest"
  by (simp add: className_literal_def className_open_def)

lemma match_className_open:
  "match_className (className_open @ body) =
     (if takeWhile (\<lambda>c. c \<noteq> dquote) body = [] \<or> dropWhile (\<lambda>c. c \<noteq> dquote) body = [] then None
      else Some (takeWhile (\<lambda>c. c \<noteq> dquote) body, tl (dropWhile (\<lambda>c. c \<noteq> dquote) body)))"
  by (simp add: match_className_def Let_def)

lemma match_className_not_open: "\<not> prefix className_open s \<Longrightarrow> match_className s = None"
  by (simp add: match_className_def)

lemma match_className_SomeD:
  assumes "match_className s = Some (g, rest)"
  shows "s = className_open @ g @ dquote # rest \<and> g \<noteq> [] \<and> dquote \<notin> set g"
proof -
  from assms have "prefix className_open s"
    by (auto simp: match_className_def split: if_splits)
  then obtain body where s: "s = className_open @ body"
    by (auto simp: prefix_def)
  let ?P = "\<lambda>c. c \<noteq> dquote"
  from assms have g: "g = takeWhile ?P body" and rest: "rest = tl (dropWhile ?P body)"
    and ne: "takeWhile ?P body \<noteq> []" "dropWhile ?P body \<noteq> []"
    unfolding s match_className_open by (auto split: if_splits)
  from ne(2) have "hd (dropWhile ?P body) = dquote"
    using hd_dropWhile [of ?P body] by simp
  with ne(2) rest have "dropWhile ?P body = dquote # rest"
    by (cases "dropWhile ?P body") simp_all
  then have "body = g @ dquote # rest"
    using takeWhile_dropWhile_id [of ?P body] g by simp
  moreover have "dquote \<notin> set g"
    unfolding g using set_takeWhileD [of dquote ?P body] by blast
  ultimately show ?thesis
    using s g ne(1) by simp
qed

lemma takeWhile_until: "y \<notin> set g \<Longrightarrow> takeWhile (\<lambda>c. c \<noteq> y) (g @ y # rest) = g"
  by (induction g) auto

lemma dropWhile_until: "y \<notin> set g \<Longrightarrow> dropWhile (\<lambda>c. c \<noteq> y) (g @ y # rest) = y # rest"
  by (induction g) auto

lemma match_className_SomeI:
  assumes "g \<noteq> []" and "dquote \<notin> set g"
  shows "match_className (className_open @ g @ dquote # rest) = Some (g, rest)"
proof -
  let ?P = "\<lambda>c. c \<noteq> dquote"
  from assms(2) have "takeWhile ?P (g @ dquote # rest) = g"
    by (rule takeWhile_until)
  moreover from assms(2) have "dropWhile ?P (g @ dquote # rest) = dquote # rest"
    by (rule dropWhile_until)
  ultimately show ?thesis
    using assms(1) by (simp add: match_className_open)
qed

lemma match_className_hd: "x \<noteq> 99 \<Longrightarrow> match_className (x # xs) = None"
  by (simp add: match_className_not_open className_open_Cons)

lemma match_className_needs_quote: "dquote \<notin> set s \<Longrightarrow> match_className s = None"
proof (rule match_className_not_open, rule notI)
  assume "dquote \<notin> set s" and "prefix className_open s"
  then have "set className_open \<subseteq> set s"
    by (simp add: set_mono_prefix)
  with \<open>dquote \<notin> set s\<close> show False
    by (auto simp: className_open_def)
qed

lemma prefix_classes_Cons: "\<exists>t. prefix_classes g = 99 # t"
  by (simp add: prefix_classes_def className_literal_def str_def)

lemma re_sub_className_lookahead:
  "99 \<notin> set m \<Longrightarrow> prefix m (re_sub_className xs) \<longleftrightarrow> prefix m xs"
proof (induction xs arbitrary: m)
  case Nil
  show ?case by simp
next
  case (Cons x xs)
  show ?case
  proof (cases m)
    case Nil
    then show ?thesis by simp
  next
    case m: (Cons a m')
    with Cons.prems have a: "a \<noteq> 99" and m': "99 \<notin> set m'"
      by auto
    show ?thesis
    proof (cases "match_className (x # xs)")
      case None
      with m Cons.IH [OF m'] show ?thesis
        by simp
    next
      case (Some gr)
      then obtain g rest where gr: "gr = (g, rest)"
        by (cases gr)
      from Some have "x = 99"
        using match_className_hd [of x xs] by auto
      moreover obtain t where "prefix_classes g = 99 # t"
        using prefix_classes_Cons by blast
      ultimately show ?thesis
        using Some gr m a by simp
    qed
  qed
qed

lemma re_sub_className_skip:
  "99 \<notin> set g \<Longrightarrow> re_sub_className (g @ t) = g @ re_sub_className t"
  by (induction g) (simp_all add: match_className_hd)

lemma re_sub_className_no_quote: "dquote \<notin> set s \<Longrightarrow> re_sub_className s = s"
  by (induction s) (simp_all add: match_className_needs_quote)

lemma set_str_join: "set (str_join sep ts) \<subseteq> set sep \<union> \<Union> (set ` set ts)"
  by (induction sep ts rule: str_join.induct) auto

lemma prefixed_chars:
  "set (str_join [space] (map prefix_class (str_split g))) \<subseteq> {space} \<union> set tw \<union> set g"
proof -
  have "set t \<subseteq> set tw \<union> set g" if "t \<in> set (map prefix_class (str_split g))" for t
    using that prefix_class_chars str_split_chars by fastforce
  then have "\<Union> (set ` set (map prefix_class (str_split g))) \<subseteq> set tw \<union> set g"
    by blast
  with set_str_join [of "[space]" "map prefix_class (str_split g)"] show ?thesis
    by fastforce
qed

lemma occurrences_className_literal:
  assumes "call_pattern w"
  shows "occurrences w (className_literal g @ rest) = occurrences w g + occurrences w rest"
proof -
  from assms have w: "w \<noteq> []" "dquote \<notin> set w"
    by (simp_all add: call_pattern_def)
  have "40 \<in> set w"
    using assms by (simp add: call_pattern_mem)
  moreover have "40 \<notin> set (str ''className = '')"
    by (simp add: str_def)
  ultimately have 0: "occurrences w (str ''className = '') = 0"
    by (rule occurrences_absent)
  have "occurrences w (str ''className = '' @ dquote # (g @ dquote # rest)) =
      occurrences w (str ''className = '') + occurrences w (g @ dquote # rest)"
    using w(2,1) by (rule occurrences_append_sep)
  also have "occurrences w (g @ dquote # rest) = occurrences w g + occurrences w rest"
    using w(2,1) by (rule occurrences_append_sep)
  finally show ?thesis
    using 0 by (simp add: className_literal_def)
qed

lemma occurrences_prefixed:
  assumes "call_pattern w"
  shows "occurrences w (str_join [space] (map prefix_class (str_split g))) = occurrences w g"
proof -
  from assms have w: "w \<noteq> []" "list_all (\<lambda>c. \<not> isspace c) w" "space \<notin> set w"
    by (simp_all add: call_pattern_def call_pattern_no_space)
  have "occurrences w (str_join [space] (map prefix_class (str_split g))) =
      sum_list (map (occurrences w) (map prefix_class (str_split g)))"
    using w(1,3) by (rule occurrences_str_join)
  also have "\<dots> = sum_list (map (occurrences w) (str_split g))"
    using assms by (simp add: comp_def occurrences_prefix_class)
  also have "\<dots> = occurrences w g"
    using w(1,2) by (rule occurrences_str_split [symmetric])
  finally show ?thesis .
qed

lemma occurrences_re_sub_className:
  assumes w: "call_pattern w"
  shows "occurrences w (re_sub_className s) = occurrences w s"
proof (induction s rule: re_sub_className.induct)
  case 1
  show ?case by simp
next
  case (2 x xs)
  show ?case
  proof (cases "match_className (x # xs)")
    case None
    from w have cw: "w = 99 # tl w" and m: "99 \<notin> set (tl w)"
      by (rule call_pattern_Cons) (use w in \<open>simp add: call_pattern_def\<close>)
    from m have "prefix (tl w) (re_sub_className xs) \<longleftrightarrow> prefix (tl w) xs"
      by (rule re_sub_className_lookahead)
    then have "prefix (99 # tl w) (x # re_sub_className xs) \<longleftrightarrow> prefix (99 # tl w) (x # xs)"
      by simp
    with cw have "prefix w (x # re_sub_className xs) \<longleftrightarrow> prefix w (x # xs)"
      by simp
    with None "2.IH"(1) [OF None] show ?thesis
      by simp
  next
    case (Some gr)
    then obtain g rest where gr: "gr = (g, rest)"
      by (cases gr)
    with Some have "x # xs = className_open @ g @ dquote # rest"
      using match_className_SomeD by blast
    then have s: "x # xs = className_literal g @ rest"
      by (simp add: className_literal_open)
    have "occurrences w (x # xs) = occurrences w g + occurrences w rest"
      unfolding s using w by (rule occurrences_className_literal)
    moreover have "occurrences w (re_sub_className (x # xs)) =
        occurrences w (str_join [space] (map prefix_class (str_split g))) +
        occurrences w (re_sub_className rest)"
      using Some gr occurrences_className_literal [OF w]
      by (simp add: prefix_classes_def)
    moreover have "occurrences w (re_sub_className rest) = occurrences w rest"
      using "2.IH"(2) [OF Some gr [symmetric]] .
    ultimately show ?thesis
      using occurrences_prefixed [OF w] by simp
  qed
qed

section \<open>The definitions of the specification and those of the script\<close>

text \<open>
  The literal, the tokens, the join and the prefixing of the specification are those of
  the script.
\<close>

lemma first_index_iff:
  "first_index P s = Some i \<longleftrightarrow> i < length s \<and> P (drop i s) \<and> (\<forall>j<i. \<not> P (drop j s))"
proof
  assume "first_index P s = Some i"
  then obtain k where k: "k < length [0..<length s]" "P (drop ([0..<length s] ! k) s)"
    "i = [0..<length s] ! k" "\<forall>j<k. \<not> P (drop ([0..<length s] ! j) s)"
    unfolding first_index_def find_Some_iff by blast
  from k(1) have kl: "k < length s"
    by simp
  with k(3) have ik: "i = k"
    by simp
  have "\<not> P (drop j s)" if "j < i" for j
    using that k(4) kl ik by (auto dest!: spec [of _ j])
  with kl ik k(2) show "i < length s \<and> P (drop i s) \<and> (\<forall>j<i. \<not> P (drop j s))"
    by simp
next
  assume i: "i < length s \<and> P (drop i s) \<and> (\<forall>j<i. \<not> P (drop j s))"
  then have "i < length [0..<length s] \<and> P (drop ([0..<length s] ! i) s) \<and>
      i = [0..<length s] ! i \<and> (\<forall>j<i. \<not> P (drop ([0..<length s] ! j) s))"
    by simp
  then show "first_index P s = Some i"
    unfolding first_index_def find_Some_iff by blast
qed

lemma first_index_Some:
  "first_index P s = Some i \<Longrightarrow> i < length s \<and> P (drop i s) \<and> (\<forall>j<i. \<not> P (drop j s))"
  by (simp add: first_index_iff)

lemma first_index_None: "first_index P s = None \<Longrightarrow> j < length s \<Longrightarrow> \<not> P (drop j s)"
  unfolding first_index_def find_None_iff by simp

lemma spec_opening_eq: "spec_opening = className_open"
  by (simp add: spec_opening_def className_open_def dquote_def)

lemma take_opening: "take (length className_open) s = className_open \<longleftrightarrow> prefix className_open s"
proof
  assume "take (length className_open) s = className_open"
  then show "prefix className_open s"
    by (metis take_is_prefix)
next
  assume "prefix className_open s"
  then show "take (length className_open) s = className_open"
    by (auto simp: prefix_def)
qed

lemma first_quote:
  assumes "dquote \<notin> set g"
  shows "first_index (\<lambda>t. hd t = dquote) (g @ dquote # rest) = Some (length g)"
proof -
  have "hd (drop j (g @ dquote # rest)) \<noteq> dquote" if "j < length g" for j
  proof -
    from that have "hd (drop j (g @ dquote # rest)) = g ! j"
      by (simp add: hd_drop_conv_nth nth_append)
    with that assms show ?thesis
      by (metis nth_mem)
  qed
  then show ?thesis
    by (simp add: first_index_iff)
qed

lemma spec_literal_of_match:
  assumes "match_className s = Some (g, rest)"
  shows "spec_literal s = Some (g, rest)"
proof -
  from assms have s: "s = className_open @ g @ dquote # rest" and g: "g \<noteq> []" "dquote \<notin> set g"
    using match_className_SomeD by blast+
  from g(2) have "first_index (\<lambda>t. hd t = dquote) (g @ dquote # rest) = Some (length g)"
    by (rule first_quote)
  with g(1) show ?thesis
    by (simp add: spec_literal_def spec_opening_eq s dquote_def [symmetric])
qed

lemma match_of_spec_literal:
  assumes "spec_literal s = Some (g, rest)"
  shows "match_className s = Some (g, rest)"
proof -
  define body where "body = drop (length className_open) s"
  from assms have "take (length className_open) s = className_open"
    by (auto simp: spec_literal_def spec_opening_eq split: if_splits)
  then have "prefix className_open s"
    by (simp only: take_opening)
  then have s: "s = className_open @ body"
    by (auto simp: prefix_def body_def)
  from assms obtain n where n: "first_index (\<lambda>t. hd t = dquote) body = Some n"
    and n0: "n \<noteq> 0" and g: "g = take n body" and rest: "rest = drop (Suc n) body"
    by (auto simp: spec_literal_def spec_opening_eq body_def dquote_def split: if_splits option.splits)
  from n have nl: "n < length body" and q: "hd (drop n body) = dquote"
    and before: "\<forall>j<n. hd (drop j body) \<noteq> dquote"
    using first_index_Some [of "\<lambda>t. hd t = dquote" body n] by simp_all
  from nl q have "body ! n = dquote"
    by (simp add: hd_drop_conv_nth)
  with nl have body: "body = g @ dquote # rest"
    unfolding g rest by (metis id_take_nth_drop)
  have "dquote \<notin> set g"
  proof
    assume "dquote \<in> set g"
    then obtain j where j: "j < length g" "g ! j = dquote"
      by (auto simp: in_set_conv_nth)
    with g nl have "j < n" and "body ! j = dquote"
      by simp_all
    with nl have "hd (drop j body) = dquote"
      by (simp add: hd_drop_conv_nth)
    with before \<open>j < n\<close> show False
      by blast
  qed
  moreover from n0 nl g have "g \<noteq> []"
    by auto
  ultimately have "match_className (className_open @ g @ dquote # rest) = Some (g, rest)"
    by (intro match_className_SomeI)
  with s body show ?thesis
    by simp
qed

lemma spec_literal_eq: "spec_literal s = match_className s"
proof (cases "match_className s")
  case None
  show ?thesis
  proof (cases "spec_literal s")
    case (Some gr)
    then have "match_className s = Some gr"
      using match_of_spec_literal [of s "fst gr" "snd gr"] by simp
    with None show ?thesis
      by simp
  qed (simp add: None)
next
  case (Some gr)
  then show ?thesis
    using spec_literal_of_match [of s "fst gr" "snd gr"] by simp
qed

lemma spec_tokens_space: "isspace c \<Longrightarrow> spec_tokens (c # cs) = spec_tokens cs"
  by (simp add: spec_tokens.simps [of "c # cs"] spec_tokens.simps [of cs])

lemma spec_tokens_Nil: "spec_tokens [] = []"
  by (simp add: spec_tokens.simps [of "[]"])

lemma spec_tokens_word:
  assumes "takeWhile (\<lambda>c. \<not> isspace c) s \<noteq> []"
  shows "spec_tokens s =
    takeWhile (\<lambda>c. \<not> isspace c) s # spec_tokens (dropWhile (\<lambda>c. \<not> isspace c) s)"
proof -
  from assms obtain c cs where s: "s = c # cs" and c: "\<not> isspace c"
    by (cases s) (auto split: if_splits)
  then show ?thesis
    by (simp add: spec_tokens.simps [of "c # cs"])
qed

lemma split_from_spec:
  "split_from w s =
     (if w @ takeWhile (\<lambda>c. \<not> isspace c) s = [] then spec_tokens s
      else (w @ takeWhile (\<lambda>c. \<not> isspace c) s) # spec_tokens (dropWhile (\<lambda>c. \<not> isspace c) s))"
proof (induction s arbitrary: w)
  case Nil
  show ?case
    by (simp add: spec_tokens_Nil)
next
  case (Cons c cs)
  show ?case
  proof (cases "isspace c")
    case True
    have "split_from [] cs = spec_tokens cs"
      using Cons [of "[]"] spec_tokens_word [of cs] by (simp split: if_splits)
    with True show ?thesis
      by (simp add: spec_tokens_space)
  next
    case False
    with Cons [of "w @ [c]"] show ?thesis
      by simp
  qed
qed

lemma spec_tokens_eq: "spec_tokens s = str_split s"
  using split_from_spec [of "[]" s] spec_tokens_word [of s]
  by (simp add: str_split_def split: if_splits)

lemma spec_join_eq: "spec_join ts = str_join [space] ts"
proof (induction "[space]" ts rule: str_join.induct)
  case (3 x y ys)
  then show ?case
    by (simp add: space_def)
qed (simp_all add: space_def)

lemma spec_prefix_token_eq: "spec_prefix_token = prefix_class"
  by (rule ext) (simp add: spec_prefix_token_def prefix_class_def startswith_def tw_def)

section \<open>The class-name substitution applied twice\<close>

text \<open>
  Where the pattern did not match it does not match in the output either, and a literal
  that the substitution has written is written again as it is.
\<close>

lemma match_className_lookahead:
  assumes "match_className (x # xs) = None"
  shows "match_className (x # re_sub_className xs) = None"
proof (cases "prefix className_open (x # re_sub_className xs)")
  case False
  then show ?thesis
    by (rule match_className_not_open)
next
  case True
  let ?m = "str ''lassName = '' @ [dquote]"
  let ?P = "\<lambda>c. c \<noteq> dquote"
  from True have x: "x = 99" and "prefix ?m (re_sub_className xs)"
    by (simp_all add: className_open_Cons)
  then have "prefix ?m xs"
    using re_sub_className_lookahead [OF className_open_tl_fresh] by simp
  then obtain body where xs: "xs = ?m @ body"
    by (auto simp: prefix_def)
  have out: "re_sub_className xs = ?m @ re_sub_className body"
    unfolding xs using className_open_tl_fresh by (rule re_sub_className_skip)
  from x xs have s: "x # xs = className_open @ body"
    by (simp add: className_open_Cons)
  from x out have s': "x # re_sub_className xs = className_open @ re_sub_className body"
    by (simp add: className_open_Cons)
  from assms consider "takeWhile ?P body = []" | "dropWhile ?P body = []"
    unfolding s match_className_open by (auto split: if_splits)
  then show ?thesis
  proof cases
    case 1
    show ?thesis
    proof (cases body)
      case Nil
      then show ?thesis
        unfolding s' using match_className_open [of "[]"] by simp
    next
      case (Cons b body')
      with 1 have "b = dquote"
        by (simp split: if_splits)
      then have "b \<noteq> 99"
        by (simp add: dquote_def)
      then have "match_className (b # body') = None"
        by (rule match_className_hd)
      with Cons \<open>b = dquote\<close> show ?thesis
        unfolding s' by (simp add: match_className_open)
    qed
  next
    case 2
    then have "dquote \<notin> set body"
      by (metis (mono_tags, lifting) dropWhile_eq_Nil_conv)
    then have "re_sub_className body = body"
      by (rule re_sub_className_no_quote)
    with assms s s' show ?thesis
      by simp
  qed
qed

lemma re_sub_className_fixed_literal:
  assumes q: "dquote \<notin> set out"
    and tokens: "map prefix_class (str_split out) = str_split out"
    and join: "str_join [space] (str_split out) = out"
    and t: "re_sub_className t = t"
  shows "re_sub_className (className_literal out @ t) = className_literal out @ t"
proof (cases "out = []")
  case True
  let ?m = "str ''lassName = '' @ [dquote, dquote]"
  have lit: "className_literal out @ t = 99 # ?m @ t"
    using True by (simp add: className_literal_def str_def)
  have "className_literal out @ t = className_open @ dquote # t"
    using True by (simp add: className_literal_open)
  then have "match_className (99 # ?m @ t) = None"
    unfolding lit [symmetric] by (simp add: match_className_open)
  moreover have "99 \<notin> set ?m"
    by (simp add: str_def dquote_def)
  then have "re_sub_className (?m @ t) = ?m @ re_sub_className t"
    by (rule re_sub_className_skip)
  ultimately show ?thesis
    unfolding lit using t by simp
next
  case False
  then have "match_className (className_open @ out @ dquote # t) = Some (out, t)"
    using q by (rule match_className_SomeI)
  moreover obtain x xs where c: "className_open @ out @ dquote # t = x # xs"
    by (auto simp: className_open_Cons)
  ultimately have "re_sub_className (className_open @ out @ dquote # t) =
      prefix_classes out @ re_sub_className t"
    by simp
  then show ?thesis
    using tokens join t by (simp add: className_literal_open [symmetric] prefix_classes_def)
qed

lemma prefixed_fixed:
  fixes g :: pystr
  defines "out \<equiv> str_join [space] (map prefix_class (str_split g))"
  shows "map prefix_class (str_split out) = str_split out"
    and "str_join [space] (str_split out) = out"
proof -
  have split: "str_split out = map prefix_class (str_split g)"
    unfolding out_def using prefixed_tokens by (rule str_split_join)
  show "map prefix_class (str_split out) = str_split out"
    unfolding split by (simp add: prefix_class_idem)
  show "str_join [space] (str_split out) = out"
    unfolding split by (simp add: out_def)
qed

lemma re_sub_className_idem: "re_sub_className (re_sub_className s) = re_sub_className s"
proof (induction s rule: re_sub_className.induct)
  case 1
  show ?case by simp
next
  case (2 x xs)
  show ?case
  proof (cases "match_className (x # xs)")
    case None
    then have "match_className (x # re_sub_className xs) = None"
      by (rule match_className_lookahead)
    with None "2.IH"(1) [OF None] show ?thesis
      by simp
  next
    case (Some gr)
    then obtain g rest where gr: "gr = (g, rest)"
      by (cases gr)
    define out where "out = str_join [space] (map prefix_class (str_split g))"
    from Some gr have "dquote \<notin> set g"
      using match_className_SomeD by blast
    then have "dquote \<notin> set out"
      unfolding out_def using prefixed_chars [of g]
      by (auto simp: space_def dquote_def tw_def str_def)
    moreover have "map prefix_class (str_split out) = str_split out"
      and "str_join [space] (str_split out) = out"
      unfolding out_def by (rule prefixed_fixed)+
    moreover have "re_sub_className (re_sub_className rest) = re_sub_className rest"
      using "2.IH"(2) [OF Some gr [symmetric]] .
    ultimately have "re_sub_className (className_literal out @ re_sub_className rest) =
        className_literal out @ re_sub_className rest"
      by (rule re_sub_className_fixed_literal)
    moreover have "re_sub_className (x # xs) = className_literal out @ re_sub_className rest"
      using Some gr by (simp add: prefix_classes_def out_def)
    ultimately show ?thesis
      by simp
  qed
qed

section \<open>The pipeline: repaired calls and idempotence\<close>


lemma add_fix_counts:
  "occurrences tw_add (re_sub_literal tw_add add s) = 0"
  "occurrences add (re_sub_literal tw_add add s) = occurrences add s + occurrences tw_add s"
  "occurrences tw_remove (re_sub_literal tw_add add s) = occurrences tw_remove s"
  "occurrences remove (re_sub_literal tw_add add s) = occurrences remove s"
proof -
  note pats = call_pattern_tw_add call_pattern_add call_pattern_tw_remove call_pattern_remove
  have ne: "tw_add \<noteq> add" "tw_remove \<noteq> tw_add" "tw_remove \<noteq> add" "remove \<noteq> tw_add" "remove \<noteq> add"
    by (simp_all add: tw_add_def add_def tw_remove_def remove_def str_def)
  show "occurrences tw_add (re_sub_literal tw_add add s) = 0"
    using occurrences_re_sub_literal [OF pats(1) pats(1) pats(2), of s] ne
    by (simp add: occurrences_call_call pats)
  show "occurrences add (re_sub_literal tw_add add s) = occurrences add s + occurrences tw_add s"
    using occurrences_re_sub_literal [OF pats(2) pats(1) pats(2), of s] ne
    by (simp add: occurrences_call_call pats)
  show "occurrences tw_remove (re_sub_literal tw_add add s) = occurrences tw_remove s"
    using occurrences_re_sub_literal [OF pats(3) pats(1) pats(2), of s] ne
    by (simp add: occurrences_call_call pats)
  show "occurrences remove (re_sub_literal tw_add add s) = occurrences remove s"
    using occurrences_re_sub_literal [OF pats(4) pats(1) pats(2), of s] ne
    by (simp add: occurrences_call_call pats)
qed

lemma remove_fix_counts:
  "occurrences tw_remove (re_sub_literal tw_remove remove s) = 0"
  "occurrences remove (re_sub_literal tw_remove remove s) = occurrences remove s + occurrences tw_remove s"
  "occurrences tw_add (re_sub_literal tw_remove remove s) = occurrences tw_add s"
  "occurrences add (re_sub_literal tw_remove remove s) = occurrences add s"
proof -
  note pats = call_pattern_tw_add call_pattern_add call_pattern_tw_remove call_pattern_remove
  have ne: "tw_remove \<noteq> remove" "tw_add \<noteq> tw_remove" "tw_add \<noteq> remove" "add \<noteq> tw_remove" "add \<noteq> remove"
    by (simp_all add: tw_add_def add_def tw_remove_def remove_def str_def)
  show "occurrences tw_remove (re_sub_literal tw_remove remove s) = 0"
    using occurrences_re_sub_literal [OF pats(3) pats(3) pats(4), of s] ne
    by (simp add: occurrences_call_call pats)
  show "occurrences remove (re_sub_literal tw_remove remove s) = occurrences remove s + occurrences tw_remove s"
    using occurrences_re_sub_literal [OF pats(4) pats(3) pats(4), of s] ne
    by (simp add: occurrences_call_call pats)
  show "occurrences tw_add (re_sub_literal tw_remove remove s) = occurrences tw_add s"
    using occurrences_re_sub_literal [OF pats(1) pats(3) pats(4), of s] ne
    by (simp add: occurrences_call_call pats)
  show "occurrences add (re_sub_literal tw_remove remove s) = occurrences add s"
    using occurrences_re_sub_literal [OF pats(2) pats(3) pats(4), of s] ne
    by (simp add: occurrences_call_call pats)
qed

lemma pipeline_counts:
  "occurrences tw_add (pipeline t) = 0"
  "occurrences tw_remove (pipeline t) = 0"
  "occurrences add (pipeline t) = occurrences add t + occurrences tw_add t"
  "occurrences remove (pipeline t) = occurrences remove t + occurrences tw_remove t"
  by (simp_all add: pipeline_def occurrences_re_sub_className add_fix_counts remove_fix_counts
      call_pattern_tw_add call_pattern_add call_pattern_tw_remove call_pattern_remove)

text \<open>
  Claim C1. The pipeline is idempotent: applied to its own output it returns that output.
\<close>

theorem pipeline_idempotent: "pipeline (pipeline t) = pipeline t"
proof -
  have "re_sub_literal tw_add add (pipeline t) = pipeline t"
    by (rule re_sub_literal_absent) (rule pipeline_counts)
  moreover have "re_sub_literal tw_remove remove (pipeline t) = pipeline t"
    by (rule re_sub_literal_absent) (rule pipeline_counts)
  moreover have "re_sub_className (pipeline t) = pipeline t"
    by (simp add: pipeline_def re_sub_className_idem)
  ultimately show ?thesis
    by (simp add: pipeline_def [of "pipeline t"])
qed

text \<open>
  Claim C3. When the input has \<open>classList.tw-add(\<close>, the output of the pipeline has it
  nowhere, and has \<open>classList.add(\<close> as often as the input had either of the two.
\<close>

theorem tw_add_repaired:
  "0 < occurrences tw_add t \<Longrightarrow>
     occurrences tw_add (pipeline t) = 0 \<and>
     occurrences add (pipeline t) = occurrences add t + occurrences tw_add t"
  by (simp add: pipeline_counts)

theorem tw_add_repaired_witness:
  "0 < occurrences tw_add (str ''a.classList.tw-add(x); b.classList.add(y)'') \<and>
   occurrences tw_add (pipeline (str ''a.classList.tw-add(x); b.classList.add(y)'')) = 0 \<and>
   occurrences add (pipeline (str ''a.classList.tw-add(x); b.classList.add(y)'')) =
     occurrences add (str ''a.classList.tw-add(x); b.classList.add(y)'') +
     occurrences tw_add (str ''a.classList.tw-add(x); b.classList.add(y)'')"
proof -
  have h: "0 < occurrences tw_add (str ''a.classList.tw-add(x); b.classList.add(y)'')"
    by (simp add: tw_add_def str_def)
  from h tw_add_repaired [OF h] show ?thesis
    by blast
qed

text \<open>
  Claim C4. The same for \<open>classList.tw-remove(\<close> and \<open>classList.remove(\<close>.
\<close>

theorem tw_remove_repaired:
  "0 < occurrences tw_remove t \<Longrightarrow>
     occurrences tw_remove (pipeline t) = 0 \<and>
     occurrences remove (pipeline t) = occurrences remove t + occurrences tw_remove t"
  by (simp add: pipeline_counts)

theorem tw_remove_repaired_witness:
  "0 < occurrences tw_remove (str ''a.classList.tw-remove(x); b.classList.remove(y)'') \<and>
   occurrences tw_remove (pipeline (str ''a.classList.tw-remove(x); b.classList.remove(y)'')) = 0 \<and>
   occurrences remove (pipeline (str ''a.classList.tw-remove(x); b.classList.remove(y)'')) =
     occurrences remove (str ''a.classList.tw-remove(x); b.classList.remove(y)'') +
     occurrences tw_remove (str ''a.classList.tw-remove(x); b.classList.remove(y)'')"
proof -
  have h: "0 < occurrences tw_remove (str ''a.classList.tw-remove(x); b.classList.remove(y)'')"
    by (simp add: tw_remove_def str_def)
  from h tw_remove_repaired [OF h] show ?thesis
    by blast
qed

section \<open>What the class-name substitution writes\<close>

lemma re_sub_className_match:
  assumes "match_className s = Some (g, rest)"
  shows "re_sub_className s =
    className_literal (str_join [space] (map prefix_class (str_split g))) @ re_sub_className rest"
proof -
  from assms have "s = className_open @ g @ dquote # rest"
    using match_className_SomeD by blast
  then obtain x xs where "s = x # xs"
    by (auto simp: className_open_Cons)
  with assms show ?thesis
    by (simp add: prefix_classes_def)
qed

lemma filter_isspace_join:
  "list_all (\<lambda>t. t \<noteq> [] \<and> list_all (\<lambda>c. \<not> isspace c) t) ts \<Longrightarrow>
     filter isspace (str_join [space] ts) = replicate (length ts - 1) space"
proof (induction "[space]" ts rule: str_join.induct)
  case 1
  show ?case by simp
next
  case (2 x)
  then have "filter isspace x = []"
    by (simp add: list_all_iff)
  then show ?case by simp
next
  case (3 x y ys)
  then have "filter isspace x = []"
    by (simp add: list_all_iff)
  with 3 show ?case
    by (simp add: isspace_space)
qed

section \<open>The class-name substitution across a concatenation\<close>

text \<open>
  When \<open>u\<close> does not end inside a class string and the text behind it starts with \<open>c\<close>, no
  match that starts in \<open>u\<close> ends behind it, and the substitution treats the two parts
  separately.
\<close>

lemma unclosed_iff:
  "unclosed u \<longleftrightarrow> (\<exists>a b. u = a @ className_open @ b \<and> dquote \<notin> set b)"
proof
  let ?P = "\<lambda>c. c \<noteq> dquote"
  assume "unclosed u"
  then obtain a where a: "rev (dropWhile ?P (rev u)) = a @ className_open"
    by (auto simp: unclosed_def suffix_def)
  have "u = rev (dropWhile ?P (rev u)) @ rev (takeWhile ?P (rev u))"
    by (metis rev_append rev_rev_ident takeWhile_dropWhile_id)
  with a have "u = a @ className_open @ rev (takeWhile ?P (rev u))"
    by simp
  moreover have "dquote \<notin> set (rev (takeWhile ?P (rev u)))"
    using set_takeWhileD [of dquote ?P "rev u"] by auto
  ultimately show "\<exists>a b. u = a @ className_open @ b \<and> dquote \<notin> set b"
    by blast
next
  let ?P = "\<lambda>c. c \<noteq> dquote"
  assume "\<exists>a b. u = a @ className_open @ b \<and> dquote \<notin> set b"
  then obtain a b where u: "u = a @ className_open @ b" and b: "dquote \<notin> set b"
    by blast
  have "rev u = rev b @ dquote # rev (a @ str ''className = '')"
    by (simp add: u className_open_def)
  moreover from b have "dquote \<notin> set (rev b)"
    by simp
  ultimately have "dropWhile ?P (rev u) = dquote # rev (a @ str ''className = '')"
    using dropWhile_until [of dquote "rev b"] by simp
  then have "rev (dropWhile ?P (rev u)) = a @ className_open"
    by (simp add: className_open_def)
  then show "unclosed u"
    by (simp add: unclosed_def suffix_def)
qed

lemma unclosed_append: "unclosed b \<Longrightarrow> unclosed (a @ b)"
  unfolding unclosed_iff by (metis append.assoc)

lemma unclosed_Cons: "unclosed b \<Longrightarrow> unclosed (x # b)"
  using unclosed_append [of b "[x]"] by simp

lemma unclosed_open: "dquote \<notin> set b \<Longrightarrow> unclosed (className_open @ b)"
  unfolding unclosed_iff by (metis append_Nil)

lemma match_className_append:
  assumes "match_className s = Some (g, rest)"
  shows "match_className (s @ z) = Some (g, rest @ z)"
proof -
  from assms have "s = className_open @ g @ dquote # rest" and "g \<noteq> []" and "dquote \<notin> set g"
    using match_className_SomeD by blast+
  then show ?thesis
    using match_className_SomeI [of g "rest @ z"] by simp
qed

lemma match_className_None_append:
  assumes none: "match_className (x # xs) = None" and closed: "\<not> unclosed (x # xs)"
  shows "match_className ((x # xs) @ 99 # z) = None"
proof (cases "prefix className_open ((x # xs) @ 99 # z)")
  case False
  then show ?thesis
    by (rule match_className_not_open)
next
  case True
  let ?P = "\<lambda>c. c \<noteq> dquote"
  have "99 \<notin> set (tl className_open)"
    by (simp add: className_open_Cons str_def dquote_def)
  with True have "prefix className_open (x # xs)"
    using prefix_append_fresh [of "x # xs" 99 className_open z] by simp
  then obtain body where s: "x # xs = className_open @ body"
    by (auto simp: prefix_def)
  from closed have "dquote \<in> set body"
    unfolding s using unclosed_open by blast
  with none have "takeWhile ?P body = []"
    unfolding s match_className_open
    by (auto split: if_splits simp: dropWhile_eq_Nil_conv)
  with \<open>dquote \<in> set body\<close> obtain body' where "body = dquote # body'"
    by (cases body) (auto split: if_splits)
  then have "(x # xs) @ 99 # z = className_open @ dquote # body' @ 99 # z"
    by (simp add: s)
  then show ?thesis
    by (simp only: match_className_open) simp
qed

lemma re_sub_className_append:
  "\<not> unclosed u \<Longrightarrow>
     re_sub_className (u @ 99 # z) = re_sub_className u @ re_sub_className (99 # z)"
proof (induction u rule: re_sub_className.induct)
  case 1
  show ?case by simp
next
  case (2 x xs)
  show ?case
  proof (cases "match_className (x # xs)")
    case None
    from "2.prems" have "\<not> unclosed xs"
      using unclosed_Cons by blast
    with None "2.IH"(1) have "re_sub_className (xs @ 99 # z) = re_sub_className xs @ re_sub_className (99 # z)"
      by simp
    moreover from None "2.prems" have "match_className ((x # xs) @ 99 # z) = None"
      by (rule match_className_None_append)
    ultimately show ?thesis
      using None by simp
  next
    case (Some gr)
    then obtain g rest where gr: "gr = (g, rest)"
      by (cases gr)
    from Some gr have s: "x # xs = className_open @ g @ dquote # rest"
      using match_className_SomeD by blast
    have "\<not> unclosed rest"
    proof
      assume "unclosed rest"
      then have "unclosed ((className_open @ g @ [dquote]) @ rest)"
        by (rule unclosed_append)
      with s "2.prems" show False
        by simp
    qed
    with "2.IH"(2) [OF Some gr [symmetric]]
    have "re_sub_className (rest @ 99 # z) = re_sub_className rest @ re_sub_className (99 # z)"
      by simp
    moreover from Some gr have "match_className ((x # xs) @ 99 # z) = Some (g, rest @ 99 # z)"
      using match_className_append [of "x # xs" g rest "99 # z"] by simp
    ultimately show ?thesis
      using Some gr by simp
  qed
qed

lemma empty_literal_Cons: "empty_literal = 99 # str ''lassName = '' @ [dquote, dquote]"
  by (simp add: empty_literal_def className_literal_def str_def)

lemma re_sub_className_empty_literal:
  "re_sub_className (empty_literal @ v) = empty_literal @ re_sub_className v"
proof -
  let ?m = "str ''lassName = '' @ [dquote, dquote]"
  have e: "empty_literal @ v = className_open @ dquote # v"
    by (simp add: empty_literal_def className_literal_open)
  have "match_className (empty_literal @ v) = None"
    unfolding e by (simp add: match_className_open)
  then have "re_sub_className (empty_literal @ v) = 99 # re_sub_className (?m @ v)"
    by (simp add: empty_literal_Cons)
  moreover have "99 \<notin> set ?m"
    by (simp add: str_def dquote_def)
  then have "re_sub_className (?m @ v) = ?m @ re_sub_className v"
    by (rule re_sub_className_skip)
  ultimately show ?thesis
    by (simp add: empty_literal_Cons)
qed

section \<open>The literal substitutions across a concatenation\<close>

text \<open>
  The literal substitutions treat the two sides of a character separately when the
  pattern has that character at most as its first one; and they neither open nor close
  a class string.
\<close>

lemma re_sub_literal_skip:
  "p \<noteq> [] \<Longrightarrow> hd p \<notin> set g \<Longrightarrow> re_sub_literal p r (g @ t) = g @ re_sub_literal p r t"
proof (induction g)
  case Nil
  show ?case by simp
next
  case (Cons a g)
  then have "\<not> prefix p (a # g @ t)"
    by (cases p) auto
  with Cons show ?case
    by simp
qed

lemma re_sub_literal_append:
  assumes "c \<notin> set (tl p)"
  shows "re_sub_literal p r (u @ c # z) = re_sub_literal p r u @ re_sub_literal p r (c # z)"
  using assms
proof (induction p r u rule: re_sub_literal.induct)
  case (1 p r)
  show ?case by simp
next
  case (2 p r x xs)
  have pre: "prefix p ((x # xs) @ c # z) \<longleftrightarrow> prefix p (x # xs)"
    using "2.prems" by (intro prefix_append_fresh) simp_all
  show ?case
  proof (cases "prefix p (x # xs)")
    case True
    then have "length p \<le> Suc (length xs)"
      using prefix_length_le by fastforce
    then have "drop (length p - 1) (xs @ c # z) = drop (length p - 1) xs @ c # z"
      by simp
    with True pre "2.IH"(1) [OF True "2.prems"] show ?thesis
      by simp
  next
    case False
    with pre "2.IH"(2) [OF False "2.prems"] show ?thesis
      by simp
  qed
qed

lemma re_sub_literal_sep:
  assumes "p \<noteq> []" and "y \<notin> set p"
  shows "re_sub_literal p r (u @ y # z) = re_sub_literal p r u @ y # re_sub_literal p r z"
proof -
  from assms have "y \<notin> set (tl p)"
    by (auto dest: list.set_sel(2))
  then have "re_sub_literal p r (u @ y # z) = re_sub_literal p r u @ re_sub_literal p r (y # z)"
    by (rule re_sub_literal_append)
  moreover from assms have "\<not> prefix p (y # z)"
    by (cases p) auto
  ultimately show ?thesis
    by simp
qed

lemma set_re_sub_literal: "set (re_sub_literal p r s) \<subseteq> set s \<union> set r"
proof (induction p r s rule: re_sub_literal.induct)
  case (1 p r)
  show ?case by simp
next
  case (2 p r x xs)
  have "set (drop (length p - 1) xs) \<subseteq> set xs"
    by (rule set_drop_subset)
  with 2 show ?case
    by (cases "prefix p (x # xs)") auto
qed

lemma re_sub_literal_keeps:
  "r \<noteq> [] \<Longrightarrow> hd r = c \<Longrightarrow> c \<in> set s \<Longrightarrow> c \<in> set (re_sub_literal p r s)"
  by (induction s) auto

lemma suffix_behind_sep:
  assumes "y \<notin> set k"
  shows "suffix k (a @ y # t) \<longleftrightarrow> suffix k t"
proof
  assume "suffix k (a @ y # t)"
  then have "suffix k ((a @ [y]) @ t)"
    by simp
  then have "suffix k t \<or> (\<exists>us. k = us @ t \<and> suffix us (a @ [y]))"
    by (simp only: suffix_append)
  then show "suffix k t"
  proof
    assume "\<exists>us. k = us @ t \<and> suffix us (a @ [y])"
    then obtain us where us: "k = us @ t" "suffix us (a @ [y])"
      by blast
    show ?thesis
    proof (cases "us = []")
      case True
      with us show ?thesis by simp
    next
      case False
      with us(2) have "last us = y"
        by (metis last_snoc suffix_def last_appendR)
      with False have "y \<in> set us"
        using last_in_set by blast
      with us(1) assms show ?thesis
        by simp
    qed
  qed
next
  assume "suffix k t"
  then have "suffix k ((a @ [y]) @ t)"
    by (rule suffix_appendI)
  then show "suffix k (a @ y # t)"
    by simp
qed

lemma suffix_re_sub_literal:
  assumes k: "99 \<notin> set k" "40 \<notin> set k"
  shows "call_pattern p \<Longrightarrow> call_pattern r \<Longrightarrow>
    suffix (99 # k) (re_sub_literal p r h) \<Longrightarrow> suffix (99 # k) h"
proof (induction p r h rule: re_sub_literal.induct)
  case (1 p r)
  then show ?case by simp
next
  case (2 p r x xs)
  note p = \<open>call_pattern p\<close> and r = \<open>call_pattern r\<close>
  from p have pne: "p \<noteq> []"
    by (simp add: call_pattern_def)
  show ?case
  proof (cases "prefix p (x # xs)")
    case True
    define rest where "rest = drop (length p - 1) xs"
    from True pne have s: "x # xs = p @ rest"
      unfolding rest_def by (rule prefix_as_append)
    obtain rb where rb: "r = rb @ [40]"
      by (rule that [OF call_pattern_snoc [OF r]])
    have "re_sub_literal p r (x # xs) = r @ re_sub_literal p r rest"
      using True by (simp add: rest_def)
    then have "re_sub_literal p r (x # xs) = rb @ 40 # re_sub_literal p r rest"
      by (simp add: rb)
    with "2.prems"(3) have "suffix (99 # k) (rb @ 40 # re_sub_literal p r rest)"
      by simp
    moreover from k have n: "40 \<notin> set (99 # k)"
      by simp
    ultimately have "suffix (99 # k) (re_sub_literal p r rest)"
      using suffix_behind_sep [OF n, of rb "re_sub_literal p r rest"] by blast
    with "2.IH"(1) [OF True p r] have "suffix (99 # k) rest"
      by (simp add: rest_def)
    then show ?thesis
      unfolding s by (rule suffix_appendI)
  next
    case False
    with "2.prems"(3) have "suffix (99 # k) (x # re_sub_literal p r xs)"
      by simp
    then consider "99 # k = x # re_sub_literal p r xs" | "suffix (99 # k) (re_sub_literal p r xs)"
      by (auto simp: suffix_Cons)
    then show ?thesis
    proof cases
      case 1
      then have x: "x = 99" and out: "re_sub_literal p r xs = k"
        by simp_all
      have "99 \<notin> set xs"
      proof
        assume "99 \<in> set xs"
        with r have "99 \<in> set (re_sub_literal p r xs)"
          by (intro re_sub_literal_keeps) (simp_all add: call_pattern_def)
        with out k show False
          by simp
      qed
      moreover from p have "99 \<in> set p"
        by (simp add: call_pattern_mem)
      ultimately have "occurrences p xs = 0"
        by (rule occurrences_absent [rotated])
      then have "re_sub_literal p r xs = xs"
        by (rule re_sub_literal_absent)
      with x out show ?thesis
        by simp
    next
      case 2
      with "2.IH"(2) [OF False p r] have "suffix (99 # k) xs"
        by simp
      then show ?thesis
        by (rule suffix_ConsI)
    qed
  qed
qed

lemma first_split_unique:
  "y \<notin> set a \<Longrightarrow> y \<notin> set b \<Longrightarrow> a @ y # c = b @ y # d \<Longrightarrow> a = b \<and> c = d"
proof (induction a arbitrary: b)
  case Nil
  then show ?case
    by (cases b) auto
next
  case (Cons x a)
  then show ?case
    by (cases b) auto
qed

lemma last_split_unique:
  assumes "y \<notin> set c" and "y \<notin> set d" and "a @ y # c = b @ y # d"
  shows "a = b \<and> c = d"
proof -
  from assms(3) have "rev (a @ y # c) = rev (b @ y # d)"
    by simp
  then have "rev c @ y # rev a = rev d @ y # rev b"
    by simp
  moreover from assms have "y \<notin> set (rev c)" "y \<notin> set (rev d)"
    by simp_all
  ultimately have "rev c = rev d \<and> rev a = rev b"
    using first_split_unique [of y "rev c" "rev d" "rev a" "rev b"] by simp
  then show ?thesis
    by simp
qed

lemma unclosed_re_sub_literal:
  assumes p: "call_pattern p" and r: "call_pattern r" and u: "unclosed (re_sub_literal p r u)"
  shows "unclosed u"
proof -
  let ?K = "str ''className = ''"
  let ?sub = "re_sub_literal p r"
  from p r have pq: "p \<noteq> []" "dquote \<notin> set p" "dquote \<notin> set r"
    by (simp_all add: call_pattern_def)
  from u obtain a' b' where out: "?sub u = a' @ className_open @ b'" and b': "dquote \<notin> set b'"
    unfolding unclosed_iff by blast
  then have "dquote \<in> set (?sub u)"
    by (simp add: className_open_def)
  with pq(3) have "dquote \<in> set u"
    using set_re_sub_literal [of p r u] by auto
  from split_list_last [OF this] obtain h b where hb: "u = h @ dquote # b" and b: "dquote \<notin> set b"
    by blast
  from pq(1,2) have "?sub u = ?sub h @ dquote # ?sub b"
    unfolding hb by (rule re_sub_literal_sep)
  with out have "?sub h @ dquote # ?sub b = (a' @ ?K) @ dquote # b'"
    by (simp add: className_open_def)
  moreover from b pq(3) have "dquote \<notin> set (?sub b)"
    using set_re_sub_literal [of p r b] by auto
  ultimately have "?sub h = a' @ ?K"
    using b' last_split_unique [of dquote "?sub b" b' "?sub h" "a' @ ?K"] by simp
  then have "suffix ?K (?sub h)"
    by (simp add: suffix_def)
  moreover have K: "?K = 99 # str ''lassName = ''"
    by (simp add: str_def)
  moreover have "99 \<notin> set (str ''lassName = '')" and "40 \<notin> set (str ''lassName = '')"
    by (simp_all add: str_def)
  then have "suffix (99 # str ''lassName = '') (?sub h) \<Longrightarrow> suffix (99 # str ''lassName = '') h"
    using p r by (rule suffix_re_sub_literal)
  ultimately have "suffix ?K h"
    by (simp only:)
  then obtain a where "h = a @ ?K"
    by (auto simp: suffix_def)
  with hb have "u = a @ className_open @ b"
    by (simp add: className_open_def)
  with b show ?thesis
    unfolding unclosed_iff by blast
qed

section \<open>The empty class string\<close>

lemma not_prefix_className:
  "\<not> prefix tw_add (str ''className'' @ t)" "\<not> prefix tw_remove (str ''className'' @ t)"
  by (simp_all add: tw_add_def tw_remove_def str_def)

lemma re_sub_literal_className:
  assumes "p = tw_add \<or> p = tw_remove" and "99 \<notin> set g"
  shows "re_sub_literal p r (str ''className'' @ g @ t) = str ''className'' @ g @ re_sub_literal p r t"
proof -
  from assms(1) have p: "p \<noteq> []" "hd p = 99"
    by (auto simp: tw_add_def tw_remove_def str_def)
  from assms(1) have "\<not> prefix p (99 # str ''lassName'' @ g @ t)"
    using not_prefix_className [of "g @ t"] by (auto simp: str_def)
  then have "re_sub_literal p r (99 # str ''lassName'' @ g @ t) =
      99 # re_sub_literal p r ((str ''lassName'' @ g) @ t)"
    by simp
  also have "re_sub_literal p r ((str ''lassName'' @ g) @ t) =
      (str ''lassName'' @ g) @ re_sub_literal p r t"
    using p assms(2) by (intro re_sub_literal_skip) (simp_all add: str_def)
  finally show ?thesis
    by (simp add: str_def)
qed

lemma re_sub_literal_empty_literal:
  assumes "p = tw_add \<or> p = tw_remove"
  shows "re_sub_literal p r (u @ empty_literal @ v) =
    re_sub_literal p r u @ empty_literal @ re_sub_literal p r v"
proof -
  let ?g = "[space, 61, space, dquote, dquote]"
  have e: "empty_literal = str ''className'' @ ?g"
    by (simp add: empty_literal_def className_literal_def str_def space_def)
  have c: "str ''className'' @ ?g @ v = 99 # str ''lassName'' @ ?g @ v"
    by (simp add: str_def)
  from assms have "99 \<notin> set (tl p)"
    by (auto simp: tw_add_def tw_remove_def str_def)
  then have "re_sub_literal p r (u @ 99 # str ''lassName'' @ ?g @ v) =
      re_sub_literal p r u @ re_sub_literal p r (99 # str ''lassName'' @ ?g @ v)"
    by (rule re_sub_literal_append)
  then have "re_sub_literal p r (u @ str ''className'' @ ?g @ v) =
      re_sub_literal p r u @ re_sub_literal p r (str ''className'' @ ?g @ v)"
    by (simp only: c)
  also have "re_sub_literal p r (str ''className'' @ ?g @ v) =
      str ''className'' @ ?g @ re_sub_literal p r v"
    using assms by (rule re_sub_literal_className) (simp add: space_def dquote_def)
  finally show ?thesis
    by (simp only: e append.assoc)
qed

lemma unclosed_fixed:
  assumes "\<not> unclosed u"
  shows "\<not> unclosed (re_sub_literal tw_remove remove (re_sub_literal tw_add add u))"
  using assms unclosed_re_sub_literal [OF call_pattern_tw_remove call_pattern_remove]
    unclosed_re_sub_literal [OF call_pattern_tw_add call_pattern_add]
  by blast

text \<open>
  Claim C9, as stated, at the text \<open>className = "a className = ""\<close>: the pattern matches at
  the first \<open>className = "\<close> up to the first of the two adjacent quotes, and the empty
  literal, which lies across the end of that match, is not in the output.
\<close>

theorem empty_literal_counterexample:
  "occurrences empty_literal (className_open @ str ''a '' @ empty_literal) = 1 \<and>
   pipeline (className_open @ str ''a '' @ empty_literal) =
     className_literal (str ''tw-a tw-className tw-='') @ [dquote] \<and>
   occurrences empty_literal (className_literal (str ''tw-a tw-className tw-='') @ [dquote]) = 0"
  by (simp add: pipeline_def empty_literal_def tw_add_def add_def tw_remove_def remove_def
      match_className_def className_literal_def className_open_def prefix_classes_def
      prefix_class_def startswith_def str_split_def tw_def str_def dquote_def space_def isspace_def)

text \<open>
  Claim C9, amended. The pattern does not match at \<open>className = ""\<close>, and an occurrence of
  it is left unchanged by the pipeline, which treats the text before it and the text
  behind it as it would treat them alone, unless the text before it ends inside a class
  string opened by \<open>className = "\<close>.
\<close>

theorem empty_literal_kept:
  assumes "\<not> unclosed u"
  shows "match_className (empty_literal @ v) = None \<and>
    pipeline (u @ empty_literal @ v) = pipeline u @ empty_literal @ pipeline v"
proof -
  let ?mend = "\<lambda>s. re_sub_literal tw_remove remove (re_sub_literal tw_add add s)"
  have "empty_literal @ v = className_open @ dquote # v"
    by (simp add: empty_literal_def className_literal_open)
  then have none: "match_className (empty_literal @ v) = None"
    by (simp only: match_className_open) simp
  have mend: "?mend (u @ empty_literal @ v) = ?mend u @ empty_literal @ ?mend v"
    by (simp add: re_sub_literal_empty_literal)
  from assms have "\<not> unclosed (?mend u)"
    by (rule unclosed_fixed)
  then have "re_sub_className (?mend u @ 99 # tl empty_literal @ ?mend v) =
      re_sub_className (?mend u) @ re_sub_className (99 # tl empty_literal @ ?mend v)"
    by (rule re_sub_className_append)
  moreover have "99 # tl empty_literal @ ?mend v = empty_literal @ ?mend v"
    by (simp add: empty_literal_Cons)
  ultimately have "re_sub_className (?mend u @ empty_literal @ ?mend v) =
      re_sub_className (?mend u) @ empty_literal @ re_sub_className (?mend v)"
    by (simp add: re_sub_className_empty_literal)
  with mend have "pipeline (u @ empty_literal @ v) = pipeline u @ empty_literal @ pipeline v"
    by (simp add: pipeline_def)
  with none show ?thesis
    by simp
qed

theorem empty_literal_kept_witness:
  "\<not> unclosed (className_literal (str ''a'') @ str ''; y.'') \<and>
   match_className (empty_literal @ str '';'') = None \<and>
   pipeline ((className_literal (str ''a'') @ str ''; y.'') @ empty_literal @ str '';'') =
     pipeline (className_literal (str ''a'') @ str ''; y.'') @ empty_literal @ pipeline (str '';'')"
proof -
  have h: "\<not> unclosed (className_literal (str ''a'') @ str ''; y.'')"
    by (simp add: unclosed_def suffix_to_prefix className_literal_def className_open_def
        str_def dquote_def)
  from h empty_literal_kept [OF h, of "str '';''"] show ?thesis
    by blast
qed

section \<open>Assignments with other spacing\<close>

lemma isspace_not_letter: "list_all isspace sp \<Longrightarrow> 99 \<notin> set sp \<and> 61 \<notin> set sp \<and> dquote \<notin> set sp"
  by (auto simp: list_all_iff isspace_def dquote_def)

lemma exact_spacing:
  assumes sp: "list_all isspace sp1" "list_all isspace sp2"
    and pre: "prefix [space, 61, space, dquote] (sp1 @ 61 # sp2 @ dquote # t)"
  shows "sp1 = [space] \<and> sp2 = [space]"
proof -
  from sp have n1: "61 \<notin> set sp1" and n2: "dquote \<notin> set sp2"
    by (simp_all add: isspace_not_letter)
  have s61: "space \<noteq> 61" and sq: "space \<noteq> dquote"
    by (simp_all add: space_def dquote_def)
  from pre s61 obtain a where 1: "sp1 = space # a" and p1: "prefix [61, space, dquote] (a @ 61 # sp2 @ dquote # t)"
    by (cases sp1) auto
  have a: "a = []"
  proof (cases a)
    case Nil
    then show ?thesis .
  next
    case (Cons c a')
    with p1 have "c = 61"
      by simp
    with Cons 1 n1 show ?thesis
      by simp
  qed
  with p1 have p2: "prefix [space, dquote] (sp2 @ dquote # t)"
    by simp
  from p2 sq obtain b where 2: "sp2 = space # b" and p3: "prefix [dquote] (b @ dquote # t)"
    by (cases sp2) auto
  have "b = []"
  proof (cases b)
    case Nil
    then show ?thesis .
  next
    case (Cons c b')
    with p3 have "c = dquote"
      by simp
    with Cons 2 n2 show ?thesis
      by simp
  qed
  with 1 2 a show ?thesis
    by simp
qed

lemma match_className_assignment:
  assumes "list_all isspace sp1" and "list_all isspace sp2"
    and "\<not> (sp1 = [space] \<and> sp2 = [space])"
  shows "match_className (assignment sp1 sp2 x @ v) = None"
proof (rule match_className_not_open, rule notI)
  assume "prefix className_open (assignment sp1 sp2 x @ v)"
  then have "prefix (str ''className'' @ [space, 61, space, dquote])
      (str ''className'' @ sp1 @ 61 # sp2 @ dquote # x @ dquote # v)"
    by (simp add: className_open_def assignment_def str_def space_def)
  then have "prefix [space, 61, space, dquote] (sp1 @ 61 # sp2 @ dquote # x @ dquote # v)"
    by (simp only: same_prefix_prefix)
  with assms(1,2) have "sp1 = [space] \<and> sp2 = [space]"
    by (rule exact_spacing)
  with assms(3) show False
    by simp
qed

lemma re_sub_className_class_string:
  "dquote \<notin> set x \<Longrightarrow>
     \<exists>v'. re_sub_className (x @ dquote # v) = x @ dquote # v' \<and>
       (\<not> suffix (str ''className = '') x \<longrightarrow> v' = re_sub_className v)"
proof (induction x)
  case Nil
  have "match_className (dquote # v) = None"
    by (rule match_className_hd) (simp add: dquote_def)
  then show ?case
    by simp
next
  case (Cons a x)
  then obtain v' where v': "re_sub_className (x @ dquote # v) = x @ dquote # v'"
    and same: "\<not> suffix (str ''className = '') x \<Longrightarrow> v' = re_sub_className v"
    by auto
  show ?case
  proof (cases "match_className ((a # x) @ dquote # v)")
    case None
    with v' have "re_sub_className ((a # x) @ dquote # v) = (a # x) @ dquote # v'"
      by simp
    moreover have "v' = re_sub_className v" if "\<not> suffix (str ''className = '') (a # x)"
    proof (rule same, rule notI)
      assume "suffix (str ''className = '') x"
      then have "suffix (str ''className = '') (a # x)"
        by (rule suffix_ConsI)
      with that show False ..
    qed
    ultimately show ?thesis
      by blast
  next
    case (Some gr)
    then obtain g rest where gr: "gr = (g, rest)"
      by (cases gr)
    with Some have "(a # x) @ dquote # v = className_open @ g @ dquote # rest"
      using match_className_SomeD by blast
    then have "(a # x) @ dquote # v = str ''className = '' @ dquote # g @ dquote # rest"
      by (simp add: className_open_def)
    moreover have "dquote \<notin> set (str ''className = '')"
      by (simp add: str_def dquote_def)
    ultimately have ax: "a # x = str ''className = ''"
      using Cons.prems
        first_split_unique [of dquote "a # x" "str ''className = ''" v "g @ dquote # rest"]
      by simp
    define out where "out = str_join [space] (map prefix_class (str_split g))"
    have "re_sub_className ((a # x) @ dquote # v) = className_literal out @ re_sub_className rest"
      unfolding out_def using Some gr by (intro re_sub_className_match) simp
    then have "re_sub_className ((a # x) @ dquote # v) =
        (a # x) @ dquote # (out @ dquote # re_sub_className rest)"
      by (simp add: ax className_literal_def)
    moreover have "suffix (str ''className = '') (a # x)"
      by (simp add: ax)
    ultimately show ?thesis
      by blast
  qed
qed

lemma assignment_parts:
  "assignment sp1 sp2 x @ v = str ''className'' @ (sp1 @ 61 # sp2 @ [dquote]) @ x @ dquote # v"
  by (simp add: assignment_def)

lemma re_sub_literal_assignment:
  assumes p: "p = tw_add \<or> p = tw_remove"
    and sp: "list_all isspace sp1" "list_all isspace sp2"
    and x: "occurrences p x = 0"
  shows "re_sub_literal p r (u @ assignment sp1 sp2 x @ v) =
    re_sub_literal p r u @ assignment sp1 sp2 x @ re_sub_literal p r v"
proof -
  let ?g = "sp1 @ 61 # sp2 @ [dquote]"
  let ?t = "x @ dquote # v"
  from p have pp: "p \<noteq> []" "dquote \<notin> set p" "99 \<notin> set (tl p)"
    by (auto simp: tw_add_def tw_remove_def str_def dquote_def)
  have c: "str ''className'' @ ?g @ ?t = 99 # str ''lassName'' @ ?g @ ?t"
    by (simp add: str_def)
  from sp have g: "99 \<notin> set ?g"
    using isspace_not_letter [of sp1] isspace_not_letter [of sp2] by (simp add: dquote_def)
  from pp(3) have "re_sub_literal p r (u @ 99 # str ''lassName'' @ ?g @ ?t) =
      re_sub_literal p r u @ re_sub_literal p r (99 # str ''lassName'' @ ?g @ ?t)"
    by (rule re_sub_literal_append)
  then have "re_sub_literal p r (u @ str ''className'' @ ?g @ ?t) =
      re_sub_literal p r u @ re_sub_literal p r (str ''className'' @ ?g @ ?t)"
    by (simp only: c)
  also have "re_sub_literal p r (str ''className'' @ ?g @ ?t) =
      str ''className'' @ ?g @ re_sub_literal p r ?t"
    using p g by (rule re_sub_literal_className)
  also have "re_sub_literal p r ?t = re_sub_literal p r x @ dquote # re_sub_literal p r v"
    using pp(1,2) by (rule re_sub_literal_sep)
  also have "re_sub_literal p r x = x"
    using x by (rule re_sub_literal_absent)
  finally show ?thesis
    by (simp only: assignment_parts)
qed

lemma re_sub_className_assignment:
  assumes sp: "list_all isspace sp1" "list_all isspace sp2"
    and other: "\<not> (sp1 = [space] \<and> sp2 = [space])"
    and x: "dquote \<notin> set x"
  shows "\<exists>v'. re_sub_className (assignment sp1 sp2 x @ v) = assignment sp1 sp2 x @ v' \<and>
    (\<not> suffix (str ''className = '') x \<longrightarrow> v' = re_sub_className v)"
proof -
  let ?g = "str ''lassName'' @ sp1 @ 61 # sp2 @ [dquote]"
  have a: "assignment sp1 sp2 x @ w = 99 # ?g @ x @ dquote # w" for w
    by (simp add: assignment_def str_def)
  from sp other have "match_className (assignment sp1 sp2 x @ v) = None"
    by (rule match_className_assignment)
  then have "re_sub_className (assignment sp1 sp2 x @ v) =
      99 # re_sub_className (?g @ x @ dquote # v)"
    by (simp add: a)
  moreover from sp have "99 \<notin> set ?g"
    using isspace_not_letter [of sp1] isspace_not_letter [of sp2] by (simp add: str_def dquote_def)
  then have "re_sub_className (?g @ x @ dquote # v) = ?g @ re_sub_className (x @ dquote # v)"
    by (rule re_sub_className_skip)
  moreover from x obtain v' where "re_sub_className (x @ dquote # v) = x @ dquote # v'"
    and "\<not> suffix (str ''className = '') x \<longrightarrow> v' = re_sub_className v"
    using re_sub_className_class_string by blast
  ultimately have "re_sub_className (assignment sp1 sp2 x @ v) = assignment sp1 sp2 x @ v'"
    and "\<not> suffix (str ''className = '') x \<longrightarrow> v' = re_sub_className v"
    by (simp_all only: a)
  then show ?thesis
    by blast
qed

text \<open>
  Claim C10, as stated, at the text \<open>className = "x className  =  "y"\<close>: the assignment with
  two spaces on each side of the equals sign lies inside the class string of the match
  that starts at the first \<open>className = "\<close>, and is rewritten with it.
\<close>

theorem other_spacing_counterexample:
  "occurrences (assignment [space, space] [space, space] (str ''y''))
     (className_open @ str ''x '' @ assignment [space, space] [space, space] (str ''y'')) = 1 \<and>
   pipeline (className_open @ str ''x '' @ assignment [space, space] [space, space] (str ''y'')) =
     className_literal (str ''tw-x tw-className tw-='') @ str ''y'' @ [dquote] \<and>
   occurrences (assignment [space, space] [space, space] (str ''y''))
     (className_literal (str ''tw-x tw-className tw-='') @ str ''y'' @ [dquote]) = 0"
  by (simp add: pipeline_def assignment_def tw_add_def add_def tw_remove_def remove_def
      match_className_def className_literal_def className_open_def prefix_classes_def
      prefix_class_def startswith_def str_split_def tw_def str_def dquote_def space_def isspace_def)

text \<open>
  Claim C10, amended. The pattern matches only behind the exact opening \<open>className = "\<close>: at
  an assignment with any other whitespace around the equals sign it does not match. Such
  an assignment is left unchanged by the pipeline, after the text before it treated as it
  would be alone, unless that text ends inside a class string opened by \<open>className = "\<close>
  or the class string of the assignment has a mangled call in it. The text behind the
  assignment is treated as it would be alone, too, unless the class string of the
  assignment ends with \<open>className = \<close>, so that its closing quote opens a match.
\<close>

theorem other_spacing_kept:
  assumes "list_all isspace sp1" and "list_all isspace sp2"
    and "\<not> (sp1 = [space] \<and> sp2 = [space])"
    and "dquote \<notin> set x"
    and "occurrences tw_add x = 0" and "occurrences tw_remove x = 0"
    and "\<not> unclosed u"
  shows "match_className (assignment sp1 sp2 x @ v) = None \<and>
    (\<exists>v'. pipeline (u @ assignment sp1 sp2 x @ v) = pipeline u @ assignment sp1 sp2 x @ v' \<and>
       (\<not> suffix (str ''className = '') x \<longrightarrow> v' = pipeline v))"
proof -
  let ?mend = "\<lambda>s. re_sub_literal tw_remove remove (re_sub_literal tw_add add s)"
  let ?A = "assignment sp1 sp2 x"
  from assms(1-3) have none: "match_className (?A @ v) = None"
    by (rule match_className_assignment)
  have "re_sub_literal tw_add add (u @ ?A @ v) =
      re_sub_literal tw_add add u @ ?A @ re_sub_literal tw_add add v"
    using assms(1,2,5) by (intro re_sub_literal_assignment) simp_all
  moreover have "re_sub_literal tw_remove remove
        (re_sub_literal tw_add add u @ ?A @ re_sub_literal tw_add add v) =
      ?mend u @ ?A @ ?mend v"
    using assms(1,2,6) by (intro re_sub_literal_assignment) simp_all
  ultimately have mend: "?mend (u @ ?A @ v) = ?mend u @ ?A @ ?mend v"
    by simp
  have a: "?A @ w = 99 # tl (?A @ w)" for w
    by (simp add: assignment_def str_def)
  from assms(7) have "\<not> unclosed (?mend u)"
    by (rule unclosed_fixed)
  then have "re_sub_className (?mend u @ 99 # tl (?A @ ?mend v)) =
      re_sub_className (?mend u) @ re_sub_className (99 # tl (?A @ ?mend v))"
    by (rule re_sub_className_append)
  then have split: "re_sub_className (?mend u @ ?A @ ?mend v) =
      re_sub_className (?mend u) @ re_sub_className (?A @ ?mend v)"
    using a [of "?mend v"] by simp
  from assms(1-4) obtain v' where "re_sub_className (?A @ ?mend v) = ?A @ v'"
    and "\<not> suffix (str ''className = '') x \<longrightarrow> v' = re_sub_className (?mend v)"
    using re_sub_className_assignment by blast
  with split mend have "pipeline (u @ ?A @ v) = pipeline u @ ?A @ v'"
    and "\<not> suffix (str ''className = '') x \<longrightarrow> v' = pipeline v"
    by (simp_all add: pipeline_def)
  with none show ?thesis
    by blast
qed

theorem other_spacing_kept_witness:
  "list_all isspace [] \<and> list_all isspace [] \<and> \<not> ([] = [space] \<and> [] = [space]) \<and>
   dquote \<notin> set (str ''x'') \<and> occurrences tw_add (str ''x'') = 0 \<and>
   occurrences tw_remove (str ''x'') = 0 \<and> \<not> unclosed (str ''el.'') \<and>
   match_className (assignment [] [] (str ''x'') @ str '';'') = None \<and>
   (\<exists>v'. pipeline (str ''el.'' @ assignment [] [] (str ''x'') @ str '';'') =
        pipeline (str ''el.'') @ assignment [] [] (str ''x'') @ v' \<and>
      (\<not> suffix (str ''className = '') (str ''x'') \<longrightarrow> v' = pipeline (str '';'')))"
proof -
  have h1: "list_all isspace []"
    by simp
  have h3: "\<not> (([]::pystr) = [space] \<and> ([]::pystr) = [space])"
    by simp
  have h4: "dquote \<notin> set (str ''x'')"
    by (simp add: str_def dquote_def)
  have h5: "occurrences tw_add (str ''x'') = 0"
    by (simp add: tw_add_def str_def)
  have h6: "occurrences tw_remove (str ''x'') = 0"
    by (simp add: tw_remove_def str_def)
  have h7: "\<not> unclosed (str ''el.'')"
    by (simp add: unclosed_def suffix_to_prefix className_open_def str_def dquote_def)
  from other_spacing_kept [OF h1 h1 h3 h4 h5 h6 h7, of "str '';''"] h1 h3 h4 h5 h6 h7
  show ?thesis
    by blast
qed

section \<open>The script and the passes of the specification\<close>

text \<open>
  The scan from the left copies the text up to the leftmost match, which makes it equal
  to the passes defined by the leftmost occurrence.
\<close>

lemma re_sub_literal_copy:
  "i \<le> length s \<Longrightarrow> (\<forall>j<i. \<not> prefix p (drop j s)) \<Longrightarrow>
     re_sub_literal p r s = take i s @ re_sub_literal p r (drop i s)"
proof (induction i arbitrary: s)
  case 0
  show ?case by simp
next
  case (Suc i)
  then obtain x xs where s: "s = x # xs"
    by (cases s) auto
  from Suc.prems(2) have "\<not> prefix p (drop 0 s)"
    by blast
  then have x: "\<not> prefix p (x # xs)"
    by (simp add: s)
  have "\<not> prefix p (drop j xs)" if "j < i" for j
    using Suc.prems(2) that by (auto simp: s dest!: spec [of _ "Suc j"])
  with Suc.IH [of xs] Suc.prems(1) have "re_sub_literal p r xs = take i xs @ re_sub_literal p r (drop i xs)"
    by (simp add: s)
  with x show ?case
    by (simp add: s)
qed

lemma spec_replace_all_eq: "p \<noteq> [] \<Longrightarrow> re_sub_literal p r s = spec_replace_all p r s"
proof (induction p r s rule: spec_replace_all.induct)
  case (1 p r s)
  show ?case
  proof (cases "first_index (prefix p) s")
    case None
    then have "\<forall>j<length s. \<not> prefix p (drop j s)"
      using first_index_None by blast
    then have "re_sub_literal p r s = take (length s) s @ re_sub_literal p r (drop (length s) s)"
      by (intro re_sub_literal_copy) simp_all
    with None "1.prems" show ?thesis
      by (simp add: spec_replace_all.simps [of p r s])
  next
    case (Some i)
    then have i: "i < length s" "prefix p (drop i s)" "\<forall>j<i. \<not> prefix p (drop j s)"
      using first_index_Some by blast+
    then have copy: "re_sub_literal p r s = take i s @ re_sub_literal p r (drop i s)"
      by (intro re_sub_literal_copy) simp_all
    from i(1) obtain x xs where d: "drop i s = x # xs"
      by (cases "drop i s") auto
    have "drop (i + length p) s = drop (length p) (drop i s)"
      by (simp add: add.commute)
    also have "\<dots> = drop (length p) (x # xs)"
      by (simp only: d)
    also have "\<dots> = drop (length p - 1) xs"
      using "1.prems" by (cases p) simp_all
    finally have "drop (i + length p) s = drop (length p - 1) xs" .
    with i(2) d have "re_sub_literal p r (drop i s) = r @ re_sub_literal p r (drop (i + length p) s)"
      by simp
    with copy Some "1.prems" "1.IH" [OF "1.prems" Some "1.prems"] show ?thesis
      by (simp add: spec_replace_all.simps [of p r s])
  qed
qed

lemma re_sub_className_copy:
  "i \<le> length s \<Longrightarrow> (\<forall>j<i. match_className (drop j s) = None) \<Longrightarrow>
     re_sub_className s = take i s @ re_sub_className (drop i s)"
proof (induction i arbitrary: s)
  case 0
  show ?case by simp
next
  case (Suc i)
  then obtain x xs where s: "s = x # xs"
    by (cases s) auto
  from Suc.prems(2) have "match_className (drop 0 s) = None"
    by blast
  then have x: "match_className (x # xs) = None"
    by (simp add: s)
  have "match_className (drop j xs) = None" if "j < i" for j
    using Suc.prems(2) that by (auto simp: s dest!: spec [of _ "Suc j"])
  with Suc.IH [of xs] Suc.prems(1) have "re_sub_className xs = take i xs @ re_sub_className (drop i xs)"
    by (simp add: s)
  with x show ?case
    by (simp add: s)
qed

lemma spec_prefix_class_names_eq: "re_sub_className s = spec_prefix_class_names s"
proof (induction s rule: spec_prefix_class_names.induct)
  case (1 s)
  let ?P = "\<lambda>t. spec_literal t \<noteq> None"
  show ?case
  proof (cases "first_index ?P s")
    case None
    have "match_className (drop j s) = None" if "j < length s" for j
    proof -
      from None that have "\<not> ?P (drop j s)"
        by (rule first_index_None)
      then show ?thesis
        by (simp only: spec_literal_eq not_not)
    qed
    then have "\<forall>j<length s. match_className (drop j s) = None"
      by blast
    then have "re_sub_className s = take (length s) s @ re_sub_className (drop (length s) s)"
      by (intro re_sub_className_copy) simp_all
    with None show ?thesis
      by (simp add: spec_prefix_class_names.simps [of s])
  next
    case (Some i)
    then have i: "i < length s" "spec_literal (drop i s) \<noteq> None"
      and "\<forall>j<i. \<not> spec_literal (drop j s) \<noteq> None"
      using first_index_Some [of ?P s i] by blast+
    then have "\<forall>j<i. match_className (drop j s) = None"
      by (simp only: spec_literal_eq not_not)
    with i(1) have copy: "re_sub_className s = take i s @ re_sub_className (drop i s)"
      by (intro re_sub_className_copy) simp_all
    from i(2) obtain g rest where m: "spec_literal (drop i s) = Some (g, rest)"
      by auto
    then have "match_className (drop i s) = Some (g, rest)"
      by (simp add: spec_literal_eq)
    then have "re_sub_className (drop i s) =
        className_literal (str_join [space] (map prefix_class (str_split g))) @ re_sub_className rest"
      by (rule re_sub_className_match)
    with copy Some m "1.IH" [OF Some m refl] show ?thesis
      by (simp add: spec_prefix_class_names.simps [of s] spec_prefix_token_eq spec_tokens_eq
          spec_join_eq className_literal_def spec_opening_def dquote_def)
  qed
qed

text \<open>
  Claim C7. The text that the script computes is the result of the three passes of the
  specification, one after the other and each on the result of the one before: every
  \<open>classList.tw-add(\<close> replaced by \<open>classList.add(\<close>, then every \<open>classList.tw-remove(\<close>
  replaced by \<open>classList.remove(\<close>, then the class string of every class-name literal
  split into its tokens, prefixed and rejoined. No pass is skipped: the equation has no
  condition.
\<close>

theorem pipeline_three_passes:
  "pipeline t =
     spec_prefix_class_names
       (spec_replace_all (str ''classList.tw-remove('') (str ''classList.remove('')
          (spec_replace_all (str ''classList.tw-add('') (str ''classList.add('') t))"
proof -
  have "str ''classList.tw-add('' \<noteq> []" and "str ''classList.tw-remove('' \<noteq> []"
    by (simp_all add: str_def)
  then show ?thesis
    by (simp add: pipeline_def tw_add_def add_def tw_remove_def remove_def
        spec_replace_all_eq spec_prefix_class_names_eq)
qed

section \<open>A class-name literal in the input of the pipeline\<close>

text \<open>
  What the class-name pass and the pipeline write for a class-name literal, in the terms
  of the specification.
\<close>

lemma className_literal_assignment: "className_literal g = assignment [space] [space] g"
  by (simp add: className_literal_def assignment_def str_def space_def)

lemma pipeline_literal:
  assumes m: "match_className s = Some (g, rest)" and u: "\<not> unclosed u"
    and g: "occurrences tw_add g = 0" "occurrences tw_remove g = 0"
  shows "pipeline (u @ s) =
    pipeline u @ className_literal (str_join [space] (map prefix_class (str_split g))) @ pipeline rest"
proof -
  let ?mend = "\<lambda>s. re_sub_literal tw_remove remove (re_sub_literal tw_add add s)"
  let ?A = "assignment [space] [space] g"
  let ?out = "str_join [space] (map prefix_class (str_split g))"
  from m have "s = className_open @ g @ dquote # rest" and gq: "g \<noteq> []" "dquote \<notin> set g"
    using match_className_SomeD by blast+
  then have s: "s = ?A @ rest"
    by (simp add: className_literal_open [symmetric] className_literal_assignment)
  have sp: "list_all isspace [space]"
    by (simp add: isspace_space)
  have "re_sub_literal tw_add add (u @ ?A @ rest) =
      re_sub_literal tw_add add u @ ?A @ re_sub_literal tw_add add rest"
    using sp sp g(1) by (intro re_sub_literal_assignment) simp_all
  moreover have "re_sub_literal tw_remove remove
        (re_sub_literal tw_add add u @ ?A @ re_sub_literal tw_add add rest) =
      ?mend u @ ?A @ ?mend rest"
    using sp sp g(2) by (intro re_sub_literal_assignment) simp_all
  ultimately have mend: "?mend (u @ s) = ?mend u @ ?A @ ?mend rest"
    by (simp add: s)
  have a: "?A @ w = 99 # tl (?A @ w)" for w
    by (simp add: assignment_def str_def)
  from u have "\<not> unclosed (?mend u)"
    by (rule unclosed_fixed)
  then have "re_sub_className (?mend u @ 99 # tl (?A @ ?mend rest)) =
      re_sub_className (?mend u) @ re_sub_className (99 # tl (?A @ ?mend rest))"
    by (rule re_sub_className_append)
  then have split: "re_sub_className (?mend u @ ?A @ ?mend rest) =
      re_sub_className (?mend u) @ re_sub_className (?A @ ?mend rest)"
    using a [of "?mend rest"] by simp
  from gq have "match_className (className_open @ g @ dquote # ?mend rest) = Some (g, ?mend rest)"
    by (rule match_className_SomeI)
  then have "match_className (?A @ ?mend rest) = Some (g, ?mend rest)"
    by (simp add: className_literal_open [symmetric] className_literal_assignment)
  then have "re_sub_className (?A @ ?mend rest) = className_literal ?out @ re_sub_className (?mend rest)"
    by (rule re_sub_className_match)
  with split mend show ?thesis
    by (simp add: pipeline_def)
qed

lemma spec_form:
  "className_literal (str_join [space] (map prefix_class (str_split g))) @ t =
   spec_opening @ spec_join (map spec_prefix_token (spec_tokens g)) @ 34 # t"
  by (simp add: className_literal_def spec_opening_def spec_join_eq spec_tokens_eq
      spec_prefix_token_eq dquote_def)

lemma spec_tokens_prefixed:
  "spec_tokens (spec_join (map spec_prefix_token (spec_tokens g))) =
   map spec_prefix_token (spec_tokens g)"
  using str_split_join [OF prefixed_tokens, of g]
  by (simp add: spec_join_eq spec_tokens_eq spec_prefix_token_eq)

lemma literal_written:
  assumes "spec_literal s = Some (g, rest)"
  shows "re_sub_className s =
      spec_opening @ spec_join (map spec_prefix_token (spec_tokens g)) @ 34 # re_sub_className rest"
    and "\<not> unclosed u \<Longrightarrow> occurrences (str ''classList.tw-add('') g = 0 \<Longrightarrow>
      occurrences (str ''classList.tw-remove('') g = 0 \<Longrightarrow>
      pipeline (u @ s) =
        pipeline u @ spec_opening @ spec_join (map spec_prefix_token (spec_tokens g)) @ 34 # pipeline rest"
proof -
  from assms have m: "match_className s = Some (g, rest)"
    by (simp add: spec_literal_eq)
  then show "re_sub_className s =
      spec_opening @ spec_join (map spec_prefix_token (spec_tokens g)) @ 34 # re_sub_className rest"
    using re_sub_className_match [OF m] by (simp only: spec_form)
  assume "\<not> unclosed u" and "occurrences (str ''classList.tw-add('') g = 0"
    and "occurrences (str ''classList.tw-remove('') g = 0"
  then have "pipeline (u @ s) =
      pipeline u @ className_literal (str_join [space] (map prefix_class (str_split g))) @ pipeline rest"
    using m by (intro pipeline_literal) (simp_all add: tw_add_def tw_remove_def)
  then show "pipeline (u @ s) =
      pipeline u @ spec_opening @ spec_join (map spec_prefix_token (spec_tokens g)) @ 34 # pipeline rest"
    by (simp only: spec_form)
qed

lemma filter_isspace_spec_join:
  "filter isspace (spec_join (map spec_prefix_token (spec_tokens g))) =
   replicate (length (spec_tokens g) - 1) 32"
  using filter_isspace_join [OF prefixed_tokens, of g]
  by (simp add: spec_join_eq spec_tokens_eq spec_prefix_token_eq space_def)

text \<open>
  Claim C2, as stated, at the text \<open>className = "classList.tw-add(x"\<close>: the literal is one
  that the pattern matches, its class string has the one token \<open>classList.tw-add(x\<close>, and
  the class string that the pipeline writes has the one token \<open>tw-classList.add(x\<close>, which
  is neither the input token nor the input token behind \<open>tw-\<close>: the first pass has
  repaired the call inside the token.
\<close>

theorem mangled_token_counterexample:
  "spec_literal (className_literal (str ''classList.tw-add(x'')) =
     Some (str ''classList.tw-add(x'', []) \<and>
   spec_tokens (str ''classList.tw-add(x'') = [str ''classList.tw-add(x''] \<and>
   pipeline (className_literal (str ''classList.tw-add(x'')) =
     className_literal (str ''tw-classList.add(x'') \<and>
   spec_tokens (str ''tw-classList.add(x'') = [str ''tw-classList.add(x''] \<and>
   str ''tw-classList.add(x'' \<noteq> str ''classList.tw-add(x'' \<and>
   str ''tw-classList.add(x'' \<noteq> str ''tw-'' @ str ''classList.tw-add(x''"
  by (simp add: spec_literal_eq spec_tokens_eq pipeline_def tw_add_def add_def tw_remove_def
      remove_def match_className_def className_literal_def className_open_def prefix_classes_def
      prefix_class_def startswith_def str_split_def tw_def str_def dquote_def space_def isspace_def)

text \<open>
  Claim C2, amended. Let a text start with a class-name literal with class string \<open>g\<close>.
  The class-name pass writes a literal for it whose class string has as many tokens as
  \<open>g\<close>, in the same order: token by token, the token of \<open>g\<close> itself when it starts with
  \<open>tw-\<close>, and \<open>tw-\<close> followed by the token of \<open>g\<close> otherwise. The pipeline writes that
  literal in the place of the literal of its input, between what it makes of the text
  before and of the text behind, when the text before does not end inside a class string
  and \<open>g\<close> has no mangled call.
\<close>

theorem prefixed_words_of_literal:
  assumes "spec_literal s = Some (g, rest)"
  shows "\<exists>out. re_sub_className s = spec_opening @ out @ 34 # re_sub_className rest \<and>
      (\<not> unclosed u \<longrightarrow> occurrences (str ''classList.tw-add('') g = 0 \<longrightarrow>
         occurrences (str ''classList.tw-remove('') g = 0 \<longrightarrow>
         pipeline (u @ s) = pipeline u @ spec_opening @ out @ 34 # pipeline rest) \<and>
      length (spec_tokens out) = length (spec_tokens g) \<and>
      (\<forall>i<length (spec_tokens g). spec_tokens out ! i =
         (if prefix (str ''tw-'') (spec_tokens g ! i) then spec_tokens g ! i
          else str ''tw-'' @ spec_tokens g ! i))"
proof -
  define out where "out = spec_join (map spec_prefix_token (spec_tokens g))"
  have tokens: "spec_tokens out = map spec_prefix_token (spec_tokens g)"
    unfolding out_def by (rule spec_tokens_prefixed)
  have a: "re_sub_className s = spec_opening @ out @ 34 # re_sub_className rest"
    unfolding out_def using assms by (rule literal_written(1))
  have b: "pipeline (u @ s) = pipeline u @ spec_opening @ out @ 34 # pipeline rest"
    if "\<not> unclosed u" and "occurrences (str ''classList.tw-add('') g = 0"
      and "occurrences (str ''classList.tw-remove('') g = 0"
    unfolding out_def using assms that by (rule literal_written(2))
  have c: "length (spec_tokens out) = length (spec_tokens g)"
    by (simp only: tokens length_map)
  have d: "spec_tokens out ! i =
      (if prefix (str ''tw-'') (spec_tokens g ! i) then spec_tokens g ! i
       else str ''tw-'' @ spec_tokens g ! i)"
    if "i < length (spec_tokens g)" for i
  proof -
    from that have "spec_tokens out ! i = spec_prefix_token (spec_tokens g ! i)"
      by (simp only: tokens nth_map)
    then show ?thesis
      by (simp only: spec_prefix_token_def)
  qed
  show ?thesis
  proof (rule exI [of _ out], intro conjI impI allI)
    show "re_sub_className s = spec_opening @ out @ 34 # re_sub_className rest"
      by (rule a)
    show "length (spec_tokens out) = length (spec_tokens g)"
      by (rule c)
  next
    assume "\<not> unclosed u" and "occurrences (str ''classList.tw-add('') g = 0"
      and "occurrences (str ''classList.tw-remove('') g = 0"
    then show "pipeline (u @ s) = pipeline u @ spec_opening @ out @ 34 # pipeline rest"
      by (rule b)
  next
    fix i
    assume "i < length (spec_tokens g)"
    then show "spec_tokens out ! i =
        (if prefix (str ''tw-'') (spec_tokens g ! i) then spec_tokens g ! i
         else str ''tw-'' @ spec_tokens g ! i)"
      by (rule d)
  qed
qed

theorem prefixed_words_of_literal_witness:
  "spec_literal (className_literal (str ''tw-bar baz'') @ str '';'') =
     Some (str ''tw-bar baz'', str '';'') \<and>
   \<not> unclosed (str ''el.'') \<and>
   occurrences (str ''classList.tw-add('') (str ''tw-bar baz'') = 0 \<and>
   occurrences (str ''classList.tw-remove('') (str ''tw-bar baz'') = 0 \<and>
   (\<exists>out. re_sub_className (className_literal (str ''tw-bar baz'') @ str '';'') =
        spec_opening @ out @ 34 # re_sub_className (str '';'') \<and>
      pipeline (str ''el.'' @ className_literal (str ''tw-bar baz'') @ str '';'') =
        pipeline (str ''el.'') @ spec_opening @ out @ 34 # pipeline (str '';'') \<and>
      length (spec_tokens out) = length (spec_tokens (str ''tw-bar baz'')) \<and>
      (\<forall>i<length (spec_tokens (str ''tw-bar baz'')). spec_tokens out ! i =
         (if prefix (str ''tw-'') (spec_tokens (str ''tw-bar baz'') ! i)
          then spec_tokens (str ''tw-bar baz'') ! i
          else str ''tw-'' @ spec_tokens (str ''tw-bar baz'') ! i)))"
proof -
  have h: "spec_literal (className_literal (str ''tw-bar baz'') @ str '';'') =
      Some (str ''tw-bar baz'', str '';'')"
    by (simp add: spec_literal_eq match_className_def className_literal_def className_open_def
        str_def dquote_def)
  have u: "\<not> unclosed (str ''el.'')"
    by (simp add: unclosed_def suffix_to_prefix className_open_def str_def dquote_def)
  have a: "occurrences (str ''classList.tw-add('') (str ''tw-bar baz'') = 0"
    and r: "occurrences (str ''classList.tw-remove('') (str ''tw-bar baz'') = 0"
    by (simp_all add: str_def)
  from prefixed_words_of_literal [OF h, of "str ''el.''"] h u a r show ?thesis
    by blast
qed

text \<open>
  Claim C8, as stated, at the class string \<open>" a "\<close>: it has two runs of whitespace, and the
  class string written for it, by the class-name pass and by the pipeline, is \<open>tw-a\<close>,
  which has no space at all.
\<close>

theorem whitespace_runs_counterexample:
  "re_sub_className (className_literal (str '' a '')) = className_literal (str ''tw-a'') \<and>
   pipeline (className_literal (str '' a '')) = className_literal (str ''tw-a'') \<and>
   whitespace_runs (str '' a '') = 2 \<and>
   count_list (str ''tw-a'') space = 0"
  by (simp add: pipeline_def tw_add_def add_def tw_remove_def remove_def match_className_def
      className_literal_def className_open_def prefix_classes_def prefix_class_def
      startswith_def str_split_def tw_def str_def dquote_def space_def isspace_def)

text \<open>
  Claim C8, amended. Let a text start with a class-name literal with class string \<open>g\<close>.
  The class string that the class-name pass writes for it is the tokens of \<open>g\<close>, each
  prefixed as needed, joined by one space each; none of them is empty or has whitespace
  in it. So the whitespace of the written class string is one space for each run of
  whitespace between two tokens of \<open>g\<close>, and nothing for whitespace before the first
  token and behind the last one. The pipeline writes the same class string in the place
  of the literal of its input, when the text before does not end inside a class string
  and \<open>g\<close> has no mangled call.
\<close>

theorem whitespace_normalised:
  assumes "spec_literal s = Some (g, rest)"
  shows "re_sub_className s =
      spec_opening @ spec_join (map spec_prefix_token (spec_tokens g)) @ 34 # re_sub_className rest \<and>
    (\<not> unclosed u \<longrightarrow> occurrences (str ''classList.tw-add('') g = 0 \<longrightarrow>
       occurrences (str ''classList.tw-remove('') g = 0 \<longrightarrow>
       pipeline (u @ s) =
         pipeline u @ spec_opening @ spec_join (map spec_prefix_token (spec_tokens g)) @
         34 # pipeline rest) \<and>
    list_all (\<lambda>t. t \<noteq> [] \<and> list_all (\<lambda>c. \<not> isspace c) t) (map spec_prefix_token (spec_tokens g)) \<and>
    filter isspace (spec_join (map spec_prefix_token (spec_tokens g))) =
      replicate (length (spec_tokens g) - 1) 32"
proof -
  have "list_all (\<lambda>t. t \<noteq> [] \<and> list_all (\<lambda>c. \<not> isspace c) t) (map spec_prefix_token (spec_tokens g))"
    using prefixed_tokens [of g] by (simp add: spec_tokens_eq spec_prefix_token_eq)
  moreover note literal_written(1) [OF assms] filter_isspace_spec_join [of g]
  moreover have "pipeline (u @ s) =
      pipeline u @ spec_opening @ spec_join (map spec_prefix_token (spec_tokens g)) @ 34 # pipeline rest"
    if "\<not> unclosed u" and "occurrences (str ''classList.tw-add('') g = 0"
      and "occurrences (str ''classList.tw-remove('') g = 0"
    using assms that by (rule literal_written(2))
  ultimately show ?thesis
    by (intro conjI impI)
qed

theorem whitespace_normalised_witness:
  "spec_literal (className_literal (str ''a  b'')) = Some (str ''a  b'', []) \<and>
   \<not> unclosed [] \<and>
   occurrences (str ''classList.tw-add('') (str ''a  b'') = 0 \<and>
   occurrences (str ''classList.tw-remove('') (str ''a  b'') = 0 \<and>
   spec_join (map spec_prefix_token (spec_tokens (str ''a  b''))) = str ''tw-a tw-b'' \<and>
   re_sub_className (className_literal (str ''a  b'')) =
     spec_opening @ str ''tw-a tw-b'' @ 34 # re_sub_className [] \<and>
   pipeline ([] @ className_literal (str ''a  b'')) =
     pipeline [] @ spec_opening @ str ''tw-a tw-b'' @ 34 # pipeline [] \<and>
   list_all (\<lambda>t. t \<noteq> [] \<and> list_all (\<lambda>c. \<not> isspace c) t)
     (map spec_prefix_token (spec_tokens (str ''a  b''))) \<and>
   filter isspace (str ''tw-a tw-b'') = replicate (length (spec_tokens (str ''a  b'')) - 1) 32"
proof -
  have h: "spec_literal (className_literal (str ''a  b'')) = Some (str ''a  b'', [])"
    by (simp add: spec_literal_eq match_className_def className_literal_def className_open_def
        str_def dquote_def)
  have u: "\<not> unclosed []"
    by (simp add: unclosed_def suffix_to_prefix className_open_def)
  have a: "occurrences (str ''classList.tw-add('') (str ''a  b'') = 0"
    and r: "occurrences (str ''classList.tw-remove('') (str ''a  b'') = 0"
    by (simp_all add: str_def)
  have j: "spec_join (map spec_prefix_token (spec_tokens (str ''a  b''))) = str ''tw-a tw-b''"
    by (simp add: spec_tokens_eq str_split_def spec_prefix_token_def str_def isspace_def)
  from whitespace_normalised [OF h, of "[]"] h u a r j show ?thesis
    by (simp only:) simp
qed

section \<open>The script on a text without a match\<close>








section \<open>Failure of the first \<open>open\<close>\<close>

text \<open>
  Claim C6. If the target file cannot be opened for reading, the script ends with that
  error, and the world behind it is the world before it: no file has been written and
  nothing has been printed.
\<close>

theorem read_failure_leaves_world:
  "read_file w target = Inl e \<Longrightarrow> main w = (Raised e, w)"
  by (simp add: main_def)

theorem read_failure_leaves_world_witness:
  "read_file
     \<lparr>files = Map.empty, stdout = [], stdout_encodes = (\<lambda>c. True), linesep = [10]\<rparr>
     target = Inl FileNotFoundError \<and>
   main \<lparr>files = Map.empty, stdout = [], stdout_encodes = (\<lambda>c. True), linesep = [10]\<rparr> =
     (Raised FileNotFoundError,
      \<lparr>files = Map.empty, stdout = [], stdout_encodes = (\<lambda>c. True), linesep = [10]\<rparr>)"
proof -
  have h: "read_file
      \<lparr>files = Map.empty, stdout = [], stdout_encodes = (\<lambda>c. True), linesep = [10]\<rparr>
      target = Inl FileNotFoundError"
    by (simp add: read_file_def)
  from h read_failure_leaves_world [OF h] show ?thesis
    by simp
qed

end
